theory Spec2Isabelle
  imports Main "HOL-Library.Word"
begin

unbundle bit_operations_syntax

section \<open>Data model\<close>

text \<open>
  The queue of \<^verbatim>\<open>lib/mpsc_queue_impl.h\<close> and the mutex of \<^verbatim>\<open>lib/mutex.cc\<close>,
  embedded as functions on explicit states.

  An object of the element type \<^verbatim>\<open>T\<close> is its address in the calling process together
  with its byte image (\<^verbatim>\<open>sizeof(T)\<close> bytes); \<^verbatim>\<open>VolatileCopy\<close> looks at both.
\<close>

type_synonym byte = "8 word"

record T =
  addr :: "64 word"
  bytes :: "byte list"

text \<open>\<^verbatim>\<open>struct Node\<close> (the field \<^verbatim>\<open>value\<close> is called \<open>val\<close> here).\<close>

record Node =
  val :: T
  valid :: "32 word"
  write_waiters :: "32 word"

text \<open>
  \<^verbatim>\<open>struct RawQueue\<close>, the part in shared memory: the slot array, the two cursors
  the functions of \<^verbatim>\<open>mpsc_queue_impl.h\<close> use, and \<^verbatim>\<open>blocked_threads\<close> of the header.
\<close>

record RawQueue =
  array :: "Node list"
  write_length :: "32 word"
  head_index :: "32 word"
  blocked_threads :: "32 word"

text \<open>The words a thread can park on, and the futex system calls issued on them.\<close>

datatype futex = ValidOf nat | WriteWaitersOf nat | MutexState

datatype syscall = FutexWait futex "32 word" | FutexWake futex "32 word"

text \<open>
  A queue handle: the shared \<^verbatim>\<open>RawQueue\<close> that \<^verbatim>\<open>queue_\<close> points to, the consumer's
  local \<^verbatim>\<open>tail_index_\<close>, and (ghost state) the futex calls made through the handle so far.
\<close>

record MpscQueue =
  queue :: RawQueue
  tail_index :: "32 word"
  futex_calls :: "syscall list"

text \<open>
  What a call can do other than return: fail an \<^verbatim>\<open>assert\<close> (the process aborts; the
  assertions are taken as compiled in), index the slot array out of range (undefined
  behaviour in C++), or park on a futex and never be woken.
\<close>

datatype error = AssertionFailed string | OutOfBounds | BlocksForever

text \<open>
  While a thread is parked the other threads run. Their effect on the shared memory is
  given to the blocking operations as a list of steps: each \<^verbatim>\<open>FutexWait\<close> that parks
  consumes one step, and parks forever when none is left. Between two such points an
  operation runs atomically.
\<close>

type_synonym env = "(RawQueue \<Rightarrow> RawQueue) list"

section \<open>Constants\<close>

text \<open>\<^verbatim>\<open>constants.h\<close>: \<^verbatim>\<open>static constexpr int kQueueCapacity = 64;\<close>\<close>

definition kQueueCapacity :: int where
  "kQueueCapacity = 64"

text \<open>
  Modelled from the spec: \<^verbatim>\<open>kQueueCapacityShifts\<close> is used by \<^verbatim>\<open>mpsc_queue_impl.h\<close> and
  declared in none of the files at hand; the spec has \<open>array_length_shifts = log2(capacity)\<close>.
\<close>

definition kQueueCapacityShifts :: nat where
  "kQueueCapacityShifts = 6"

text \<open>
  \<^verbatim>\<open>constexpr uint32_t mask = numeric_limits<uint32_t>::max() >> (32 - kQueueCapacityShifts);\<close>
\<close>

definition wrapping_mask :: "32 word" where
  "wrapping_mask = drop_bit (32 - kQueueCapacityShifts) (- 1)"

section \<open>Atomic operations\<close>

text \<open>
  Modelled from the spec: \<^verbatim>\<open>atomics.h\<close> is not among the files at hand. Each operation
  is given as a function from the word's old contents to the value returned and the new
  contents, as the spec's steps use them (fetch-add, exchange, compare-and-swap
  \<open>old \<rightarrow> new\<close>, increment, decrement, and).
\<close>

definition ExchangeAdd :: "32 word \<Rightarrow> 32 word \<Rightarrow> 32 word \<times> 32 word" where
  "ExchangeAdd w n = (w, w + n)"

definition Exchange :: "32 word \<Rightarrow> 32 word \<Rightarrow> 32 word \<times> 32 word" where
  "Exchange w v = (w, v)"

definition CompareExchange :: "32 word \<Rightarrow> 32 word \<Rightarrow> 32 word \<Rightarrow> bool \<times> 32 word" where
  "CompareExchange w old new = (if w = old then (True, new) else (False, w))"

definition Increment :: "32 word \<Rightarrow> 32 word" where
  "Increment w = w + 1"

definition Decrement :: "32 word \<Rightarrow> 32 word" where
  "Decrement w = w - 1"

definition BitwiseAnd :: "32 word \<Rightarrow> 32 word \<Rightarrow> 32 word" where
  "BitwiseAnd w m = w AND m"

text \<open>The 16-bit variants, on one half of \<^verbatim>\<open>write_waiters\<close>.\<close>

definition ExchangeAddWord :: "16 word \<Rightarrow> 16 word \<Rightarrow> 16 word \<times> 16 word" where
  "ExchangeAddWord c n = (c, c + n)"

definition IncrementWord :: "16 word \<Rightarrow> 16 word" where
  "IncrementWord c = c + 1"

text \<open>
  \<^verbatim>\<open>reinterpret_cast<volatile uint16_t *>(&write_waiters)\<close> is the low half of the word
  (bits 0 to 15, the target being little-endian), and that pointer \<^verbatim>\<open>+ 1\<close> the high half.
\<close>

definition low_half :: "32 word \<Rightarrow> 16 word" where
  "low_half w = ucast w"

definition high_half :: "32 word \<Rightarrow> 16 word" where
  "high_half w = ucast (drop_bit 16 w)"

definition set_low_half :: "32 word \<Rightarrow> 16 word \<Rightarrow> 32 word" where
  "set_low_half w c = (w AND 0xFFFF0000) OR ucast c"

definition set_high_half :: "32 word \<Rightarrow> 16 word \<Rightarrow> 32 word" where
  "set_high_half w c = (w AND 0xFFFF) OR push_bit 16 (ucast c)"

section \<open>VolatileCopy\<close>

text \<open>
  \<^verbatim>\<open>*dest_long++ = *src_long++\<close>: the eight bytes at offset \<open>p\<close> of the source replace
  the eight bytes at offset \<open>p\<close> of the destination.
\<close>

definition copy_uint64 :: "byte list \<Rightarrow> byte list \<Rightarrow> nat \<Rightarrow> byte list" where
  "copy_uint64 dest src p = take p dest @ take 8 (drop p src) @ drop (p + 8) dest"

text \<open>\<^verbatim>\<open>while (length >= 8) { *dest_long++ = *src_long++; length -= 8; }\<close>\<close>

function copy_longs :: "byte list \<Rightarrow> byte list \<Rightarrow> nat \<Rightarrow> nat \<Rightarrow> byte list \<times> nat" where
  "copy_longs dest src p len =
     (if 8 \<le> len then copy_longs (copy_uint64 dest src p) src (p + 8) (len - 8)
      else (dest, len))"
  by pat_completeness auto
termination
  by (relation "measure (\<lambda>(dest, src, p, len). len)") auto

declare copy_longs.simps [simp del]

text \<open>\<^verbatim>\<open>while (length--) { *dest_byte++ = *src_byte++; }\<close>\<close>

fun copy_bytes :: "byte list \<Rightarrow> byte list \<Rightarrow> nat \<Rightarrow> nat \<Rightarrow> byte list" where
  "copy_bytes dest src p 0 = dest"
| "copy_bytes dest src p (Suc len) = copy_bytes (dest[p := src ! p]) src (Suc p) len"

text \<open>
  \<^verbatim>\<open>VolatileCopy(dest, src, length)\<close>, given the two addresses and the two byte images;
  the result is the destination's new byte image. The 64-bit loop runs when both
  addresses are multiples of four. The byte loop then starts again from \<^verbatim>\<open>dest\<close> and
  \<^verbatim>\<open>src\<close> themselves (offset 0), with what is left of \<^verbatim>\<open>length\<close>. The length, a
  \<^verbatim>\<open>uint32_t\<close> that holds \<^verbatim>\<open>sizeof(T)\<close>, is a natural number here: it only counts down,
  and its wrap at the last \<^verbatim>\<open>length--\<close> is read by nothing.
\<close>

definition VolatileCopy :: "64 word \<Rightarrow> 64 word \<Rightarrow> byte list \<Rightarrow> byte list \<Rightarrow> nat \<Rightarrow> byte list" where
  "VolatileCopy dest_int src_int dest src len =
     (let (dest1, len1) =
            (if dest_int AND 0x3 = 0 \<and> src_int AND 0x3 = 0 then copy_longs dest src 0 len
             else (dest, len))
      in copy_bytes dest1 src 0 len1)"

section \<open>The queue\<close>

subsection \<open>Construction\<close>

text \<open>
  \<^verbatim>\<open>for (int i = 0; i < kQueueCapacity; ++i) { array[i].valid = 0; array[i].write_waiters = 0; }\<close>
  over the list of the indices.
\<close>

fun init_nodes :: "nat list \<Rightarrow> Node list \<Rightarrow> error + Node list" where
  "init_nodes [] arr = Inr arr"
| "init_nodes (i # js) arr =
     (if i < length arr
      then init_nodes js (arr[i := (arr ! i)\<lparr>valid := 0, write_waiters := 0\<rparr>])
      else Inl OutOfBounds)"

text \<open>
  \<^verbatim>\<open>MpscQueue<T>::MpscQueue()\<close>. The argument is what \<^verbatim>\<open>AllocateForType<RawQueue>()\<close>
  returned: nothing (\<^verbatim>\<open>nullptr\<close>), or a block of the pool with whatever it held.
\<close>

definition MpscQueue_new :: "RawQueue option \<Rightarrow> error + MpscQueue" where
  "MpscQueue_new alloc =
     (case alloc of
        None \<Rightarrow> Inl (AssertionFailed ''Out of shared memory?'')
      | Some mem \<Rightarrow>
          (case init_nodes [0..<nat kQueueCapacity] (array mem) of
             Inl e \<Rightarrow> Inl e
           | Inr arr \<Rightarrow>
               Inr \<lparr>queue = mem\<lparr>array := arr, write_length := 0, head_index := 0\<rparr>,
                    tail_index = 0, futex_calls = []\<rparr>))"

subsection \<open>Reservation\<close>

definition Reserve :: "MpscQueue \<Rightarrow> bool \<times> MpscQueue" where
  "Reserve h =
     (let (old_length, wl) = ExchangeAdd (write_length (queue h)) 1
      in if kQueueCapacity \<le> sint old_length
         then (False, h\<lparr>queue := (queue h)\<lparr>write_length := Decrement wl\<rparr>\<rparr>)
         else (True, h\<lparr>queue := (queue h)\<lparr>write_length := wl\<rparr>\<rparr>))"

definition CancelReservation :: "MpscQueue \<Rightarrow> MpscQueue" where
  "CancelReservation h = h\<lparr>queue := (queue h)\<lparr>write_length := Decrement (write_length (queue h))\<rparr>\<rparr>"

subsection \<open>The wait protocol of blocking writers\<close>

text \<open>\<^verbatim>\<open>uint16_t woken_counter = (write_waiters >> 16) & 0x7FFF;\<close>\<close>

definition woken_counter :: "32 word \<Rightarrow> 16 word" where
  "woken_counter w = ucast (drop_bit 16 w AND 0x7FFF)"

text \<open>
  \<^verbatim>\<open>bool inverted = (write_waiters & (1 << 15)) != (write_waiters & (1 << 31));\<close>
  The two sides are 32-bit values, compared as such; \<^verbatim>\<open>1 << 31\<close> is the bit pattern
  \<open>0x80000000\<close>.
\<close>

definition inverted :: "32 word \<Rightarrow> bool" where
  "inverted w = (w AND push_bit 15 1 \<noteq> w AND push_bit 31 1)"

text \<open>The loop condition, with \<^verbatim>\<open>my_wait_number\<close> already masked.\<close>

definition keeps_waiting :: "32 word \<Rightarrow> 16 word \<Rightarrow> bool" where
  "keeps_waiting w my_wait_number =
     ((\<not> inverted w \<and> woken_counter w < my_wait_number) \<or>
      (inverted w \<and> woken_counter w > my_wait_number))"

text \<open>
  The loop of \<^verbatim>\<open>DoWriteBlocking\<close> on slot \<open>i\<close>: each round reads \<^verbatim>\<open>write_waiters\<close>,
  and while the condition holds calls \<^verbatim>\<open>FutexWait\<close> on it with the value read.
\<close>

fun write_wait_loop :: "env \<Rightarrow> nat \<Rightarrow> 16 word \<Rightarrow> RawQueue \<Rightarrow> syscall list
    \<Rightarrow> error + RawQueue \<times> syscall list" where
  "write_wait_loop [] i my q calls =
     (if keeps_waiting (write_waiters (array q ! i)) my then Inl BlocksForever
      else Inr (q, calls))"
| "write_wait_loop (e # es) i my q calls =
     (if keeps_waiting (write_waiters (array q ! i)) my
      then write_wait_loop es i my (e q)
             (calls @ [FutexWait (WriteWaitersOf i) (write_waiters (array q ! i))])
      else Inr (q, calls))"

definition DoWriteBlocking :: "env \<Rightarrow> nat \<Rightarrow> 16 word \<Rightarrow> RawQueue \<Rightarrow> syscall list
    \<Rightarrow> error + RawQueue \<times> syscall list" where
  "DoWriteBlocking es i my_wait_number q calls =
     write_wait_loop es i (my_wait_number AND 0x7FFF) q calls"

subsection \<open>Enqueue\<close>

text \<open>
  The end of \<^verbatim>\<open>DoEnqueue\<close> on slot \<open>i\<close>: the copy of the item into the slot, the
  exchange of \<^verbatim>\<open>valid\<close> with 1, the assertion on what was there, and the wake of the
  parked reader. (\<^verbatim>\<open>FutexWake\<close> with \<^verbatim>\<open>num_waiters = 1\<close> wakes at most one thread, so
  the second assertion, \<^verbatim>\<open>woke_up <= 1\<close>, has no failing branch.)
\<close>

definition publish :: "MpscQueue \<Rightarrow> nat \<Rightarrow> T \<Rightarrow> error + MpscQueue" where
  "publish h i item =
     (let write_at = array (queue h) ! i;
          copied = write_at\<lparr>val := (val write_at)\<lparr>bytes :=
                     VolatileCopy (addr (val write_at)) (addr item)
                       (bytes (val write_at)) (bytes item) (length (bytes item))\<rparr>\<rparr>;
          (old_valid, v) = Exchange (valid copied) 1;
          h1 = h\<lparr>queue := (queue h)\<lparr>array := (array (queue h))[i := copied\<lparr>valid := v\<rparr>]\<rparr>\<rparr>
      in if old_valid = 1 then Inl (AssertionFailed ''Attempt to overwrite existing space!'')
         else if old_valid = 2
         then Inr (h1\<lparr>futex_calls := futex_calls h1 @ [FutexWake (ValidOf i) 1]\<rparr>)
         else Inr h1)"

definition DoEnqueue :: "env \<Rightarrow> MpscQueue \<Rightarrow> T \<Rightarrow> bool \<Rightarrow> error + MpscQueue" where
  "DoEnqueue es h item can_block =
     (let (old_head, hd1) = ExchangeAdd (head_index (queue h)) 1;
          hd2 = BitwiseAnd hd1 wrapping_mask;
          i = unat (old_head AND wrapping_mask)
      in if length (array (queue h)) \<le> i then Inl OutOfBounds
         else
           let write_at = array (queue h) ! i;
               (my_wait_number, taken) = ExchangeAddWord (low_half (write_waiters write_at)) 1;
               counted = write_at\<lparr>write_waiters := set_low_half (write_waiters write_at) taken\<rparr>;
               q1 = (queue h)\<lparr>head_index := hd2, array := (array (queue h))[i := counted]\<rparr>
           in if can_block
              then (case DoWriteBlocking es i my_wait_number q1 (futex_calls h) of
                      Inl e \<Rightarrow> Inl e
                    | Inr (q2, calls) \<Rightarrow> publish (h\<lparr>queue := q2, futex_calls := calls\<rparr>) i item)
              else publish (h\<lparr>queue := q1\<rparr>) i item)"

definition EnqueueAt :: "MpscQueue \<Rightarrow> T \<Rightarrow> error + MpscQueue" where
  "EnqueueAt h item = DoEnqueue [] h item False"

definition Enqueue :: "MpscQueue \<Rightarrow> T \<Rightarrow> error + bool \<times> MpscQueue" where
  "Enqueue h item =
     (case Reserve h of
        (False, h1) \<Rightarrow> Inr (False, h1)
      | (True, h1) \<Rightarrow>
          (case EnqueueAt h1 item of Inl e \<Rightarrow> Inl e | Inr h2 \<Rightarrow> Inr (True, h2)))"

definition EnqueueBlocking :: "env \<Rightarrow> MpscQueue \<Rightarrow> T \<Rightarrow> error + MpscQueue" where
  "EnqueueBlocking es h item =
     DoEnqueue es (h\<lparr>queue := (queue h)\<lparr>write_length := Increment (write_length (queue h))\<rparr>\<rparr>)
       item True"

subsection \<open>Dequeue\<close>

text \<open>
  \<^verbatim>\<open>DoDequeue(item, read_at)\<close>, with \<open>i\<close> the index of \<^verbatim>\<open>read_at\<close>: the caller's object
  receives the slot's byte image, the tail advances and is masked, and the woken counter
  (the high half of \<^verbatim>\<open>write_waiters\<close>) is incremented.
\<close>

definition DoDequeue :: "MpscQueue \<Rightarrow> T \<Rightarrow> nat \<Rightarrow> MpscQueue \<times> T" where
  "DoDequeue h item i =
     (let read_at = array (queue h) ! i;
          item1 = item\<lparr>bytes := bytes (val read_at)\<rparr>;
          tail1 = (tail_index h + 1) AND wrapping_mask;
          woken = IncrementWord (high_half (write_waiters read_at));
          read1 = read_at\<lparr>write_waiters := set_high_half (write_waiters read_at) woken\<rparr>
      in (h\<lparr>queue := (queue h)\<lparr>array := (array (queue h))[i := read1]\<rparr>, tail_index := tail1\<rparr>,
          item1))"

definition DequeueNext :: "MpscQueue \<Rightarrow> T \<Rightarrow> error + bool \<times> MpscQueue \<times> T" where
  "DequeueNext h item =
     (let i = unat (tail_index h)
      in if length (array (queue h)) \<le> i then Inl OutOfBounds
         else
           let read_at = array (queue h) ! i;
               (swapped, v) = CompareExchange (valid read_at) 1 0
           in if \<not> swapped then Inr (False, h, item)
              else
                let h1 = h\<lparr>queue := (queue h)\<lparr>array := (array (queue h))[i := read_at\<lparr>valid := v\<rparr>]\<rparr>\<rparr>;
                    (h2, item1) = DoDequeue h1 item i
                in Inr (True,
                        h2\<lparr>queue := (queue h2)\<lparr>write_length := Decrement (write_length (queue h2))\<rparr>\<rparr>,
                        item1))"

text \<open>\<^verbatim>\<open>while (read_at->valid == 2) { FutexWait(&(read_at->valid), 2); }\<close>\<close>

fun read_wait_loop :: "env \<Rightarrow> nat \<Rightarrow> RawQueue \<Rightarrow> syscall list
    \<Rightarrow> error + RawQueue \<times> syscall list" where
  "read_wait_loop [] i q calls =
     (if valid (array q ! i) = 2 then Inl BlocksForever else Inr (q, calls))"
| "read_wait_loop (e # es) i q calls =
     (if valid (array q ! i) = 2
      then read_wait_loop es i (e q) (calls @ [FutexWait (ValidOf i) 2])
      else Inr (q, calls))"

text \<open>A store to \<^verbatim>\<open>valid\<close> of slot \<open>i\<close>.\<close>

definition set_valid :: "RawQueue \<Rightarrow> nat \<Rightarrow> 32 word \<Rightarrow> RawQueue" where
  "set_valid q i v = q\<lparr>array := (array q)[i := (array q ! i)\<lparr>valid := v\<rparr>]\<rparr>"

text \<open>
  The first half of \<^verbatim>\<open>DequeueNextBlocking\<close>, up to and including the assertion that the
  slot is marked invalid: the exchange of 1 for 0; when it fails, the exchange of 0 for 2
  and, when that succeeds, the wait for the slot to leave 2; then the store of 0.
\<close>

definition claim_slot :: "env \<Rightarrow> MpscQueue \<Rightarrow> nat \<Rightarrow> error + MpscQueue" where
  "claim_slot es h i =
     (let (swapped, v) = CompareExchange (valid (array (queue h) ! i)) 1 0;
          waited =
            (if swapped then Inr (set_valid (queue h) i v, futex_calls h)
             else
               let (parked, v2) = CompareExchange (valid (array (queue h) ! i)) 0 2;
                   looped =
                     (if parked then read_wait_loop es i (set_valid (queue h) i v2) (futex_calls h)
                      else Inr (queue h, futex_calls h))
               in (case looped of
                     Inl e \<Rightarrow> Inl e
                   | Inr (q2, calls) \<Rightarrow>
                       Inr (set_valid q2 i (snd (Exchange (valid (array q2 ! i)) 0)), calls)))
      in case waited of
           Inl e \<Rightarrow> Inl e
         | Inr (q3, calls) \<Rightarrow>
             if valid (array q3 ! i) = 0 then Inr (h\<lparr>queue := q3, futex_calls := calls\<rparr>)
             else Inl (AssertionFailed ''Reading from node not marked as invalid.''))"

definition DequeueNextBlocking :: "env \<Rightarrow> MpscQueue \<Rightarrow> T \<Rightarrow> error + MpscQueue \<times> T" where
  "DequeueNextBlocking es h item =
     (let i = unat (tail_index h)
      in if length (array (queue h)) \<le> i then Inl OutOfBounds
         else
           (case claim_slot es h i of
              Inl e \<Rightarrow> Inl e
            | Inr h1 \<Rightarrow>
                let (h2, item1) = DoDequeue h1 item i;
                    (old_length, wl) = ExchangeAdd (write_length (queue h2)) (- 1);
                    h3 = h2\<lparr>queue := (queue h2)\<lparr>write_length := wl\<rparr>\<rparr>
                in if kQueueCapacity < sint old_length
                   then Inr (h3\<lparr>futex_calls := futex_calls h3 @ [FutexWake (WriteWaitersOf i) (- 1)]\<rparr>,
                             item1)
                   else Inr (h3, item1)))"

section \<open>The mutex\<close>

record Mutex =
  state :: "32 word"

definition MutexInit :: "Mutex \<Rightarrow> Mutex" where
  "MutexInit mutex = mutex\<lparr>state := 0\<rparr>"

text \<open>\<^verbatim>\<open>MutexRelease\<close>: the mutex afterwards and the futex calls made, or the failed assertion.\<close>

definition MutexRelease :: "Mutex \<Rightarrow> error + Mutex \<times> syscall list" where
  "MutexRelease mutex =
     (let (released, s1) = CompareExchange (state mutex) 1 0
      in if released then Inr (mutex\<lparr>state := s1\<rparr>, [])
         else
           let (cas_ret, s2) = CompareExchange s1 2 0
           in if \<not> cas_ret then Inl (AssertionFailed ''Double-releasing lock?'')
              else Inr (mutex\<lparr>state := s2\<rparr>, [FutexWake MutexState 1]))"

section \<open>Sequences of calls\<close>

text \<open>
  A thread's calls on one handle, run one after the other. A blocking call carries the
  steps the other threads take while it is parked; the empty list is the call made with
  no other thread running.
\<close>

datatype call =
    CallEnqueue T
  | CallDequeueNext T
  | CallEnqueueBlocking env T
  | CallDequeueNextBlocking env T

datatype reply =
    EnqueueReturned bool
  | DequeueNextReturned bool T
  | EnqueueBlockingReturned
  | DequeueNextBlockingReturned T

fun call_op :: "MpscQueue \<Rightarrow> call \<Rightarrow> error + reply \<times> MpscQueue" where
  "call_op h (CallEnqueue x) =
     (case Enqueue h x of Inl e \<Rightarrow> Inl e | Inr (b, h1) \<Rightarrow> Inr (EnqueueReturned b, h1))"
| "call_op h (CallDequeueNext item) =
     (case DequeueNext h item of
        Inl e \<Rightarrow> Inl e
      | Inr (b, h1, item1) \<Rightarrow> Inr (DequeueNextReturned b item1, h1))"
| "call_op h (CallEnqueueBlocking es x) =
     (case EnqueueBlocking es h x of Inl e \<Rightarrow> Inl e | Inr h1 \<Rightarrow> Inr (EnqueueBlockingReturned, h1))"
| "call_op h (CallDequeueNextBlocking es item) =
     (case DequeueNextBlocking es h item of
        Inl e \<Rightarrow> Inl e
      | Inr (h1, item1) \<Rightarrow> Inr (DequeueNextBlockingReturned item1, h1))"

fun run :: "MpscQueue \<Rightarrow> call list \<Rightarrow> error + reply list \<times> MpscQueue" where
  "run h [] = Inr ([], h)"
| "run h (c # cs) =
     (case call_op h c of
        Inl e \<Rightarrow> Inl e
      | Inr (r, h1) \<Rightarrow>
          (case run h1 cs of Inl e \<Rightarrow> Inl e | Inr (rs, h2) \<Rightarrow> Inr (r # rs, h2)))"

section \<open>Notions used in the proofs\<close>

text \<open>
  The slot \<open>k\<close> places after slot \<open>t\<close> in the ring of 64, and the slots that hold an
  element when the tail is at \<open>t\<close> and \<open>n\<close> elements are queued.
\<close>

definition slot_of :: "nat \<Rightarrow> nat \<Rightarrow> nat" where
  "slot_of t k = (if t + k < 64 then t + k else t + k - 64)"

definition occupied :: "nat \<Rightarrow> nat \<Rightarrow> nat \<Rightarrow> bool" where
  "occupied t n i \<longleftrightarrow>
     (if t + n \<le> 64 then t \<le> i \<and> i < t + n else t \<le> i \<or> i + 64 < t + n)"

text \<open>
  The states a single thread reaches between its calls: the tail at \<open>t\<close>, \<open>n\<close> elements
  queued, the head \<open>n\<close> slots after the tail, and exactly the occupied slots marked valid.
\<close>

definition seq_inv :: "MpscQueue \<Rightarrow> nat \<Rightarrow> nat \<Rightarrow> bool" where
  "seq_inv h t n \<longleftrightarrow>
     length (array (queue h)) = 64 \<and> t < 64 \<and> n \<le> 64 \<and>
     tail_index h = of_nat t \<and>
     head_index (queue h) = of_nat (slot_of t n) \<and>
     write_length (queue h) = of_nat n \<and>
     (\<forall>i<64. valid (array (queue h) ! i) = (if occupied t n i then 1 else 0))"

text \<open>What an enqueue of \<open>x\<close> leaves in a slot, and in the queue when it writes slot \<open>i\<close>.\<close>

definition copied :: "Node \<Rightarrow> T \<Rightarrow> T" where
  "copied nd x =
     (val nd)\<lparr>bytes := VolatileCopy (addr (val nd)) (addr x) (bytes (val nd)) (bytes x)
                          (length (bytes x))\<rparr>"

definition ticketed :: "Node \<Rightarrow> Node" where
  "ticketed nd =
     nd\<lparr>write_waiters := set_low_half (write_waiters nd) (low_half (write_waiters nd) + 1)\<rparr>"

definition enq_node :: "Node \<Rightarrow> T \<Rightarrow> Node" where
  "enq_node nd x = (ticketed nd)\<lparr>val := copied nd x, valid := 1\<rparr>"

definition enq_state :: "MpscQueue \<Rightarrow> nat \<Rightarrow> T \<Rightarrow> MpscQueue" where
  "enq_state h i x =
     h\<lparr>queue := (queue h)\<lparr>head_index := (head_index (queue h) + 1) AND 63,
          array := (array (queue h))[i := enq_node (array (queue h) ! i) x]\<rparr>\<rparr>"

text \<open>What a dequeue leaves in the slot it read, and in the queue.\<close>

definition deq_node :: "Node \<Rightarrow> Node" where
  "deq_node nd =
     nd\<lparr>valid := 0,
        write_waiters := set_high_half (write_waiters nd) (high_half (write_waiters nd) + 1)\<rparr>"

definition deq_state :: "MpscQueue \<Rightarrow> nat \<Rightarrow> MpscQueue" where
  "deq_state h i =
     h\<lparr>queue := (queue h)\<lparr>array := (array (queue h))[i := deq_node (array (queue h) ! i)],
          write_length := write_length (queue h) - 1\<rparr>,
       tail_index := (tail_index h + 1) AND 63\<rparr>"

text \<open>The queue the constructor makes of a block of memory with 64 slots.\<close>

definition zeroed :: "Node \<Rightarrow> Node" where
  "zeroed nd = nd\<lparr>valid := 0, write_waiters := 0\<rparr>"

definition fresh :: "RawQueue \<Rightarrow> MpscQueue" where
  "fresh mem =
     \<lparr>queue = mem\<lparr>array := map zeroed (array mem), write_length := 0, head_index := 0\<rparr>,
      tail_index = 0, futex_calls = []\<rparr>"

text \<open>
  Properties of the shared memory, and what it means for the other threads' steps during
  a blocking call to keep one.
\<close>

definition env_keeps :: "(RawQueue \<Rightarrow> bool) \<Rightarrow> env \<Rightarrow> bool" where
  "env_keeps P es \<longleftrightarrow> (\<forall>e\<in>set es. \<forall>q. P q \<longrightarrow> P (e q))"

definition valid_ok :: "RawQueue \<Rightarrow> bool" where
  "valid_ok q \<longleftrightarrow> (\<forall>nd\<in>set (array q). valid nd = 0 \<or> valid nd = 1 \<or> valid nd = 2)"

definition slots :: "nat \<Rightarrow> RawQueue \<Rightarrow> bool" where
  "slots n q \<longleftrightarrow> length (array q) = n"

definition bounds_ok :: "MpscQueue \<Rightarrow> bool" where
  "bounds_ok h \<longleftrightarrow> length (array (queue h)) = nat kQueueCapacity \<and> unat (tail_index h) < nat kQueueCapacity"

definition call_env_keeps :: "(RawQueue \<Rightarrow> bool) \<Rightarrow> call \<Rightarrow> bool" where
  "call_env_keeps P c =
     (case c of
        CallEnqueueBlocking es x \<Rightarrow> env_keeps P es
      | CallDequeueNextBlocking es item \<Rightarrow> env_keeps P es
      | _ \<Rightarrow> True)"

definition others_quiescent :: "nat \<Rightarrow> RawQueue \<Rightarrow> bool" where
  "others_quiescent i q \<longleftrightarrow>
     (\<forall>j<length (array q). j \<noteq> i \<longrightarrow> valid (array q ! j) = 0 \<or> valid (array q ! j) = 1)"

definition quiescent :: "RawQueue \<Rightarrow> bool" where
  "quiescent q \<longleftrightarrow> (\<forall>nd\<in>set (array q). valid nd = 0 \<or> valid nd = 1)"

text \<open>
  The two counters packed in each slot's \<^verbatim>\<open>write_waiters\<close>, slot by slot, and their
  values while round \<open>r\<close> of filling and draining the whole ring is under way.
\<close>

definition tickets :: "MpscQueue \<Rightarrow> (nat \<Rightarrow> 16 word) \<Rightarrow> (nat \<Rightarrow> 16 word) \<Rightarrow> bool" where
  "tickets h a b \<longleftrightarrow>
     (\<forall>i<64. low_half (write_waiters (array (queue h) ! i)) = a i \<and>
             high_half (write_waiters (array (queue h) ! i)) = b i)"

definition upto_round :: "nat \<Rightarrow> nat \<Rightarrow> nat \<Rightarrow> 16 word" where
  "upto_round r k i = of_nat (if i < k then Suc r else r)"

text \<open>
  A bounded queue of byte images, as a list: what the calls of one thread return when
  every element comes back as it went in. The byte images stored in the ring, oldest
  first; and the slots all holding \<open>sz\<close> bytes.
\<close>

fun fifo_replies :: "byte list list \<Rightarrow> call list \<Rightarrow> reply list" where
  "fifo_replies q [] = []"
| "fifo_replies q (CallEnqueue x # cs) =
     (if length q < 64 then EnqueueReturned True # fifo_replies (q @ [bytes x]) cs
      else EnqueueReturned False # fifo_replies q cs)"
| "fifo_replies q (CallDequeueNext item # cs) =
     (case q of
        [] \<Rightarrow> DequeueNextReturned False item # fifo_replies [] cs
      | b # q' \<Rightarrow> DequeueNextReturned True (item\<lparr>bytes := b\<rparr>) # fifo_replies q' cs)"
| "fifo_replies q (CallEnqueueBlocking es x # cs) = []"
| "fifo_replies q (CallDequeueNextBlocking es item # cs) = []"

fun nonblocking_of_size :: "nat \<Rightarrow> call \<Rightarrow> bool" where
  "nonblocking_of_size sz (CallEnqueue x) \<longleftrightarrow> length (bytes x) = sz"
| "nonblocking_of_size sz (CallDequeueNext item) \<longleftrightarrow> True"
| "nonblocking_of_size sz (CallEnqueueBlocking es x) \<longleftrightarrow> False"
| "nonblocking_of_size sz (CallDequeueNextBlocking es item) \<longleftrightarrow> False"

definition contents :: "MpscQueue \<Rightarrow> nat \<Rightarrow> nat \<Rightarrow> byte list list" where
  "contents h t n = map (\<lambda>k. bytes (val (array (queue h) ! slot_of t k))) [0..<n]"

definition slot_sizes :: "nat \<Rightarrow> MpscQueue \<Rightarrow> bool" where
  "slot_sizes sz h \<longleftrightarrow> (\<forall>i<64. length (bytes (val (array (queue h) ! i))) = sz)"

text \<open>
  The step of another thread that calls \<^verbatim>\<open>Enqueue(x)\<close> through a handle of its own on
  the same shared queue.
\<close>

definition other_enqueues :: "T \<Rightarrow> RawQueue \<Rightarrow> RawQueue" where
  "other_enqueues x q =
     (case Enqueue \<lparr>queue = q, tail_index = 0, futex_calls = []\<rparr> x of
        Inl e \<Rightarrow> q
      | Inr (b, h) \<Rightarrow> queue h)"

section \<open>Example objects\<close>

text \<open>
  A block of pool memory for a queue of elements of \<open>sz\<close> bytes, as the allocator may hand
  it out: 64 slots, one every \<open>sz + 8\<close> bytes from address \<open>0x1000\<close>, holding zero bytes
  and stale control words.
\<close>

definition pool_block :: "nat \<Rightarrow> RawQueue" where
  "pool_block sz =
     \<lparr>array = map (\<lambda>i. \<lparr>val = \<lparr>addr = 0x1000 + of_nat (i * (sz + 8)), bytes = replicate sz 0\<rparr>,
                          valid = 3, write_waiters = 0x12345678\<rparr>) [0..<64],
      write_length = 7, head_index = 9, blocked_threads = 5\<rparr>"

text \<open>A caller's object of \<open>sz\<close> bytes to dequeue into.\<close>

definition out_object :: "nat \<Rightarrow> T" where
  "out_object sz = \<lparr>addr = 0x3000, bytes = replicate sz 0\<rparr>"

text \<open>A caller's object of twelve bytes (three 32-bit integers, say) to enqueue.\<close>

definition item12 :: T where
  "item12 = \<lparr>addr = 0x2000, bytes = [1, 2, 3, 4, 5, 6, 7, 8, 9, 10, 11, 12]\<rparr>"

text \<open>
  An element of four bytes, and the calls of one round: the queue is filled and drained.
\<close>

definition item4 :: T where
  "item4 = \<lparr>addr = 0x2000, bytes = [1, 2, 3, 4]\<rparr>"

definition round_calls :: "call list" where
  "round_calls = replicate 64 (CallEnqueue item4) @ replicate 64 (CallDequeueNext (out_object 4))"

text \<open>A second object of twelve bytes.\<close>

definition item12b :: T where
  "item12b = \<lparr>addr = 0x2010, bytes = [21, 22, 23, 24, 25, 26, 27, 28, 29, 30, 31, 32]\<rparr>"

section \<open>Arithmetic of the ring indices\<close>

lemma wrapping_mask_eq: "wrapping_mask = 63"
  by (simp add: wrapping_mask_def kQueueCapacityShifts_def mask_eq_exp_minus_1)

lemma slot_of_less: "t < 64 \<Longrightarrow> k \<le> 64 \<Longrightarrow> slot_of t k < 64"
  by (auto simp add: slot_of_def)

lemma slot_of_0: "t < 64 \<Longrightarrow> slot_of t 0 = t"
  by (simp add: slot_of_def)

lemma slot_of_free: "t < 64 \<Longrightarrow> n < 64 \<Longrightarrow> \<not> occupied t n (slot_of t n)"
  by (auto simp add: slot_of_def occupied_def)

lemma occupied_Suc:
  "t < 64 \<Longrightarrow> n < 64 \<Longrightarrow> i < 64 \<Longrightarrow> occupied t (Suc n) i \<longleftrightarrow> i = slot_of t n \<or> occupied t n i"
  unfolding slot_of_def occupied_def by (auto split: if_splits)

lemma occupied_tail: "t < 64 \<Longrightarrow> n \<le> 64 \<Longrightarrow> occupied t n t \<longleftrightarrow> 0 < n"
  unfolding occupied_def by auto

lemma occupied_pop:
  "t < 64 \<Longrightarrow> 0 < n \<Longrightarrow> n \<le> 64 \<Longrightarrow> i < 64 \<Longrightarrow>
   occupied (slot_of t 1) (n - 1) i \<longleftrightarrow> i \<noteq> t \<and> occupied t n i"
  unfolding slot_of_def occupied_def by (auto split: if_splits)

lemma slot_of_shift: "t < 64 \<Longrightarrow> k < 64 \<Longrightarrow> slot_of (slot_of t 1) k = slot_of t (Suc k)"
  unfolding slot_of_def by (auto split: if_splits)

lemma occupied_slot_of: "t < 64 \<Longrightarrow> k < 64 \<Longrightarrow> n \<le> 64 \<Longrightarrow> occupied t n (slot_of t k) \<longleftrightarrow> k < n"
  unfolding slot_of_def occupied_def by (auto split: if_splits)

lemma slot_of_inj: "t < 64 \<Longrightarrow> j < 64 \<Longrightarrow> k < 64 \<Longrightarrow> slot_of t j = slot_of t k \<longleftrightarrow> j = k"
  unfolding slot_of_def by (auto split: if_splits)

lemma unat_and_63: "unat ((w :: 32 word) AND 63) = unat w mod 64"
proof -
  have "(63 :: 32 word) = mask 6" by (simp add: mask_eq_exp_minus_1)
  then have "w AND 63 = take_bit 6 w" by (simp add: take_bit_eq_mask)
  then show ?thesis by (simp add: unsigned_take_bit_eq take_bit_eq_mod unat_mod)
qed

lemma sint_small: "n \<le> 65 \<Longrightarrow> sint (of_nat n :: 32 word) = int n"
proof -
  assume n: "n \<le> 65"
  have "(of_nat n :: 32 word) = word_of_int (int n)" by simp
  then have "sint (of_nat n :: 32 word) = (int n + 2 ^ 31) mod 2 ^ 32 - 2 ^ 31"
    by (simp only: int_word_sint) simp
  with n show ?thesis by simp
qed

lemma and_63_small: "n \<le> 64 \<Longrightarrow> (of_nat n :: 32 word) AND 63 = of_nat (n mod 64)"
proof -
  assume n: "n \<le> 64"
  have "unat ((of_nat n :: 32 word) AND 63) = unat (of_nat (n mod 64) :: 32 word)"
    using n by (simp add: unat_and_63 unat_of_nat)
  then show ?thesis by (simp only: word_unat_eq_iff)
qed

lemma head_idx: "s < 64 \<Longrightarrow> unat ((of_nat s :: 32 word) AND 63) = s"
  by (simp add: unat_and_63 unat_of_nat)

lemma Suc_and_63: "s < 64 \<Longrightarrow> ((of_nat s :: 32 word) + 1) AND 63 = of_nat (if Suc s < 64 then Suc s else 0)"
proof -
  assume s: "s < 64"
  have "(of_nat s :: 32 word) + 1 = of_nat (Suc s)" by simp
  moreover have "Suc s \<le> 64" using s by simp
  ultimately have "((of_nat s :: 32 word) + 1) AND 63 = of_nat (Suc s mod 64)"
    by (simp only: and_63_small)
  moreover have "Suc s mod 64 = (if Suc s < 64 then Suc s else 0)"
    using s by (cases "Suc s = 64") simp_all
  ultimately show ?thesis by (simp only:)
qed

lemma head_next:
  "t < 64 \<Longrightarrow> n < 64 \<Longrightarrow> ((of_nat (slot_of t n) :: 32 word) + 1) AND 63 = of_nat (slot_of t (Suc n))"
proof -
  assume a: "t < 64" "n < 64"
  then have "slot_of t n < 64" by (simp add: slot_of_less)
  then have "((of_nat (slot_of t n) :: 32 word) + 1) AND 63 = of_nat (if Suc (slot_of t n) < 64 then Suc (slot_of t n) else 0)"
    by (rule Suc_and_63)
  moreover have "(if Suc (slot_of t n) < 64 then Suc (slot_of t n) else 0) = slot_of t (Suc n)"
    using a unfolding slot_of_def by (auto split: if_splits)
  ultimately show ?thesis by (simp only:)
qed

lemma tail_next: "t < 64 \<Longrightarrow> ((of_nat t :: 32 word) + 1) AND 63 = of_nat (slot_of t 1)"
  using head_next[of t 0] by (simp add: slot_of_0)

lemma Reserve_ok:
  "seq_inv h t n \<Longrightarrow> n < 64 \<Longrightarrow>
   Reserve h = (True, h\<lparr>queue := (queue h)\<lparr>write_length := of_nat (Suc n)\<rparr>\<rparr>)"
  by (simp add: Reserve_def seq_inv_def ExchangeAdd_def kQueueCapacity_def sint_small)

lemma Reserve_full:
  "seq_inv h t 64 \<Longrightarrow> Reserve h = (False, h)"
  using sint_small[of 64]
  by (simp add: Reserve_def seq_inv_def ExchangeAdd_def kQueueCapacity_def Decrement_def)

lemma publish_eq:
  "i < length (array (queue h)) \<Longrightarrow>
   publish h i x =
     (if valid (array (queue h) ! i) = 1 then Inl (AssertionFailed ''Attempt to overwrite existing space!'')
      else Inr (h\<lparr>queue := (queue h)\<lparr>array := (array (queue h))[i := (array (queue h) ! i)\<lparr>val := copied (array (queue h) ! i) x, valid := 1\<rparr>]\<rparr>,
                 futex_calls := (if valid (array (queue h) ! i) = 2 then futex_calls h @ [FutexWake (ValidOf i) 1] else futex_calls h)\<rparr>))"
  by (simp add: publish_def Exchange_def Let_def copied_def)

lemma DoEnqueue_nonblocking:
  "DoEnqueue es h x False =
     (if length (array (queue h)) \<le> unat (head_index (queue h) AND 63) then Inl OutOfBounds
      else publish (h\<lparr>queue := (queue h)\<lparr>head_index := (head_index (queue h) + 1) AND 63,
              array := (array (queue h))[unat (head_index (queue h) AND 63) := ticketed (array (queue h) ! unat (head_index (queue h) AND 63))]\<rparr>\<rparr>)
             (unat (head_index (queue h) AND 63)) x)"
  unfolding DoEnqueue_def ExchangeAdd_def BitwiseAnd_def ExchangeAddWord_def wrapping_mask_eq ticketed_def Let_def split_conv
  by simp

lemma EnqueueAt_free:
  assumes "unat (head_index (queue h) AND 63) = i" "i < length (array (queue h))" "valid (array (queue h) ! i) = 0"
  shows "EnqueueAt h x = Inr (enq_state h i x)"
  using assms unfolding EnqueueAt_def DoEnqueue_nonblocking
  by (simp add: publish_eq ticketed_def copied_def enq_state_def enq_node_def)


lemma enq_state_sel:
  "tail_index (enq_state h i x) = tail_index h"
  "futex_calls (enq_state h i x) = futex_calls h"
  "write_length (queue (enq_state h i x)) = write_length (queue h)"
  "blocked_threads (queue (enq_state h i x)) = blocked_threads (queue h)"
  "head_index (queue (enq_state h i x)) = (head_index (queue h) + 1) AND 63"
  "array (queue (enq_state h i x)) = (array (queue h))[i := enq_node (array (queue h) ! i) x]"
  by (simp_all add: enq_state_def)

lemma enq_node_sel:
  "valid (enq_node nd x) = 1"
  "val (enq_node nd x) = copied nd x"
  "write_waiters (enq_node nd x) = set_low_half (write_waiters nd) (low_half (write_waiters nd) + 1)"
  by (simp_all add: enq_node_def ticketed_def)

lemma Enqueue_state:
  assumes "seq_inv h t n" "n < 64"
  shows "Enqueue h x = Inr (True, enq_state (h\<lparr>queue := (queue h)\<lparr>write_length := of_nat (Suc n)\<rparr>\<rparr>) (slot_of t n) x)"
proof -
  have len: "length (array (queue h)) = 64" and hd: "head_index (queue h) = of_nat (slot_of t n)"
    and t: "t < 64"
    using assms by (simp_all add: seq_inv_def)
  have s: "slot_of t n < 64" using t assms(2) by (simp add: slot_of_less)
  have free: "valid (array (queue h) ! slot_of t n) = 0"
    using assms s slot_of_free[OF t assms(2)] by (simp add: seq_inv_def)
  let ?h1 = "h\<lparr>queue := (queue h)\<lparr>write_length := of_nat (Suc n)\<rparr>\<rparr>"
  have "EnqueueAt ?h1 x = Inr (enq_state ?h1 (slot_of t n) x)"
    by (rule EnqueueAt_free) (use free s in \<open>simp_all add: hd len head_idx\<close>)
  then show ?thesis
    by (simp add: Enqueue_def Reserve_ok[OF assms])
qed

lemma Enqueue_inv:
  assumes "seq_inv h t n" "n < 64"
  shows "seq_inv (enq_state (h\<lparr>queue := (queue h)\<lparr>write_length := of_nat (Suc n)\<rparr>\<rparr>) (slot_of t n) x) t (Suc n)"
proof -
  have t: "t < 64" and len: "length (array (queue h)) = 64"
    and hd: "head_index (queue h) = of_nat (slot_of t n)" and tl: "tail_index h = of_nat t"
    using assms by (simp_all add: seq_inv_def)
  have v: "\<And>i. i < 64 \<Longrightarrow> valid (array (queue h) ! i) = (if occupied t n i then 1 else 0)"
    using assms by (simp add: seq_inv_def)
  have s: "slot_of t n < 64" using t assms(2) by (simp add: slot_of_less)
  show ?thesis
    unfolding seq_inv_def enq_state_sel
    using t assms(2) s
    by (simp add: len hd tl head_next nth_list_update enq_node_sel v occupied_Suc)
qed

lemma Enqueue_full: "seq_inv h t 64 \<Longrightarrow> Enqueue h x = Inr (False, h)"
  by (simp add: Enqueue_def Reserve_full)

lemma deq_state_sel:
  "tail_index (deq_state h i) = (tail_index h + 1) AND 63"
  "futex_calls (deq_state h i) = futex_calls h"
  "write_length (queue (deq_state h i)) = write_length (queue h) - 1"
  "blocked_threads (queue (deq_state h i)) = blocked_threads (queue h)"
  "head_index (queue (deq_state h i)) = head_index (queue h)"
  "array (queue (deq_state h i)) = (array (queue h))[i := deq_node (array (queue h) ! i)]"
  by (simp_all add: deq_state_def)

lemma deq_node_sel:
  "valid (deq_node nd) = 0"
  "val (deq_node nd) = val nd"
  "write_waiters (deq_node nd) = set_high_half (write_waiters nd) (high_half (write_waiters nd) + 1)"
  by (simp_all add: deq_node_def)

lemma DequeueNext_empty:
  "unat (tail_index h) < length (array (queue h)) \<Longrightarrow> valid (array (queue h) ! unat (tail_index h)) \<noteq> 1
  \<Longrightarrow> DequeueNext h item = Inr (False, h, item)"
  by (simp add: DequeueNext_def CompareExchange_def Let_def)

lemma DequeueNext_full:
  assumes "unat (tail_index h) = i" "i < length (array (queue h))" "valid (array (queue h) ! i) = 1"
  shows "DequeueNext h item = Inr (True, deq_state h i, item\<lparr>bytes := bytes (val (array (queue h) ! i))\<rparr>)"
  using assms
  unfolding DequeueNext_def DoDequeue_def CompareExchange_def IncrementWord_def Decrement_def wrapping_mask_eq
     deq_state_def deq_node_def Let_def split_conv
  by simp

lemma unat_tail: "t < 64 \<Longrightarrow> unat (of_nat t :: 32 word) = t"
  by (simp add: unat_of_nat)

lemma Dequeue_state:
  assumes "seq_inv h t n" "0 < n"
  shows "DequeueNext h item = Inr (True, deq_state h t, item\<lparr>bytes := bytes (val (array (queue h) ! t))\<rparr>)"
proof -
  have t: "t < 64" and n: "n \<le> 64" and len: "length (array (queue h)) = 64" and tl: "tail_index h = of_nat t"
    using assms by (simp_all add: seq_inv_def)
  have "valid (array (queue h) ! t) = 1"
    using assms t n by (simp add: seq_inv_def occupied_tail)
  then show ?thesis
    by (intro DequeueNext_full) (use t in \<open>simp_all add: tl len unat_tail\<close>)
qed

lemma Dequeue_none:
  assumes "seq_inv h t 0"
  shows "DequeueNext h item = Inr (False, h, item)"
proof -
  have t: "t < 64" and len: "length (array (queue h)) = 64" and tl: "tail_index h = of_nat t"
    using assms by (simp_all add: seq_inv_def)
  have "valid (array (queue h) ! t) = 0"
    using assms t by (simp add: seq_inv_def occupied_tail)
  then show ?thesis
    by (intro DequeueNext_empty) (use t in \<open>simp_all add: tl len unat_tail\<close>)
qed

lemma Dequeue_inv:
  assumes "seq_inv h t n" "0 < n"
  shows "seq_inv (deq_state h t) (slot_of t 1) (n - 1)"
proof -
  have t: "t < 64" and n: "n \<le> 64" and len: "length (array (queue h)) = 64"
    and hd: "head_index (queue h) = of_nat (slot_of t n)" and tl: "tail_index h = of_nat t"
    and wl: "write_length (queue h) = of_nat n"
    using assms by (simp_all add: seq_inv_def)
  have v: "\<And>i. i < 64 \<Longrightarrow> valid (array (queue h) ! i) = (if occupied t n i then 1 else 0)"
    using assms by (simp add: seq_inv_def)
  have s: "slot_of t 1 < 64" using t by (simp add: slot_of_less)
  have hd': "slot_of (slot_of t 1) (n - 1) = slot_of t n"
    using slot_of_shift[of t "n - 1"] t n assms(2) by simp
  have wl': "(of_nat n :: 32 word) - 1 = of_nat (n - 1)"
    using assms(2) by (cases n) simp_all
  have c1: "length ((array (queue h))[t := deq_node (array (queue h) ! t)]) = 64"
    by (simp add: len)
  have c2: "n - 1 \<le> 64" using n by simp
  have c3: "(tail_index h + 1) AND 63 = of_nat (slot_of t 1)"
    unfolding tl using t by (rule tail_next)
  have c4: "head_index (queue h) = of_nat (slot_of (slot_of t 1) (n - 1))"
    unfolding hd' by (rule hd)
  have c5: "write_length (queue h) - 1 = of_nat (n - 1)"
    unfolding wl by (rule wl')
  have c6: "\<forall>i<64. valid ((array (queue h))[t := deq_node (array (queue h) ! t)] ! i) =
               (if occupied (slot_of t 1) (n - 1) i then 1 else 0)"
  proof (intro allI impI)
    fix i :: nat assume i: "i < 64"
    show "valid ((array (queue h))[t := deq_node (array (queue h) ! t)] ! i) =
               (if occupied (slot_of t 1) (n - 1) i then 1 else 0)"
      unfolding occupied_pop[OF t assms(2) n i]
      using i t by (simp add: nth_list_update len deq_node_sel v)
  qed
  show ?thesis
    unfolding seq_inv_def deq_state_sel
    using c1 s c2 c3 c4 c5 c6 by blast
qed

lemma init_nodes_nth:
  "\<forall>j\<in>set js. j < length arr \<Longrightarrow>
   \<exists>r. init_nodes js arr = Inr r \<and> length r = length arr \<and>
       (\<forall>k<length arr. r ! k = (if k \<in> set js then zeroed (arr ! k) else arr ! k))"
proof (induction js arbitrary: arr)
  case Nil
  then show ?case by simp
next
  case (Cons i js)
  let ?arr = "arr[i := (arr ! i)\<lparr>valid := 0, write_waiters := 0\<rparr>]"
  have i: "i < length arr" using Cons.prems by simp
  have "\<forall>j\<in>set js. j < length ?arr" using Cons.prems by simp
  from Cons.IH[OF this] obtain r where r: "init_nodes js ?arr = Inr r" "length r = length ?arr"
    "\<forall>k<length ?arr. r ! k = (if k \<in> set js then zeroed (?arr ! k) else ?arr ! k)" by blast
  have "\<forall>k<length arr. r ! k = (if k \<in> set (i # js) then zeroed (arr ! k) else arr ! k)"
    using r(3) i by (auto simp add: nth_list_update zeroed_def)
  with r(1,2) i show ?case by simp
qed

lemma init_nodes_all:
  "init_nodes [0..<length arr] arr = Inr (map zeroed arr)"
proof -
  have "\<forall>j\<in>set [0..<length arr]. j < length arr" by simp
  from init_nodes_nth[OF this] obtain r where r: "init_nodes [0..<length arr] arr = Inr r"
    "length r = length arr" "\<forall>k<length arr. r ! k = (if k \<in> set [0..<length arr] then zeroed (arr ! k) else arr ! k)"
    by blast
  have "r = map zeroed arr"
    using r(2,3) by (intro nth_equalityI) simp_all
  with r(1) show ?thesis by simp
qed

lemma MpscQueue_new_fresh:
  "length (array mem) = 64 \<Longrightarrow> MpscQueue_new (Some mem) = Inr (fresh mem)"
  using init_nodes_all[of "array mem"]
  by (simp add: MpscQueue_new_def kQueueCapacity_def fresh_def)

lemma fresh_inv: "length (array mem) = 64 \<Longrightarrow> seq_inv (fresh mem) 0 0"
  by (simp add: seq_inv_def fresh_def slot_of_def occupied_def zeroed_def)

lemma pool_block_length: "length (array (pool_block sz)) = 64"
  by (simp add: pool_block_def)

section \<open>The wait protocol\<close>

lemma bit_and_push_1: "bit ((w::32 word) AND push_bit m 1) n \<longleftrightarrow> n = m \<and> bit w m"
proof -
  have "bit ((w::32 word) AND push_bit m 1) n \<longleftrightarrow> bit w n \<and> m \<le> n \<and> n - m = 0 \<and> n < 32"
    by (simp only: bit_and_iff bit_push_bit_iff bit_1_iff possible_bit_word) auto
  also have "\<dots> \<longleftrightarrow> n = m \<and> bit w m"
    using bit_imp_le_length[of w m] by auto
  finally show ?thesis .
qed

lemma inverted_iff: "inverted w \<longleftrightarrow> bit w 15 \<or> bit w 31"
proof -
  have "w AND push_bit 15 1 = w AND push_bit 31 1 \<longleftrightarrow>
        (\<forall>n. possible_bit TYPE(32 word) n \<longrightarrow>
           bit (w AND push_bit 15 1) n = bit (w AND push_bit 31 1) n)"
    by (rule bit_eq_iff)
  then have eq: "w AND push_bit 15 1 = w AND push_bit 31 1 \<longleftrightarrow>
        (\<forall>n::nat. n < 32 \<longrightarrow> (n = 15 \<and> bit w 15) = (n = 31 \<and> bit w 31))"
    by (simp only: bit_and_push_1 possible_bit_word) simp
  show ?thesis
  proof (cases "bit w 15 \<or> bit w 31")
    case True
    then have "\<not> (\<forall>n::nat. n < 32 \<longrightarrow> (n = 15 \<and> bit w 15) = (n = 31 \<and> bit w 31))"
    proof
      assume "bit w 15"
      then have "(15::nat) < 32 \<and> \<not> ((15 = (15::nat) \<and> bit w 15) = (15 = (31::nat) \<and> bit w 31))" by simp
      then show ?thesis by blast
    next
      assume "bit w 31"
      then have "(31::nat) < 32 \<and> \<not> ((31 = (15::nat) \<and> bit w 15) = (31 = (31::nat) \<and> bit w 31))" by simp
      then show ?thesis by blast
    qed
    with True show ?thesis unfolding inverted_def eq by simp
  next
    case False
    then show ?thesis unfolding inverted_def eq by simp
  qed
qed


section \<open>Dequeue from an empty queue\<close>

text \<open>
  Claim C7. When the slot at \<^verbatim>\<open>tail_index_\<close> does not have \<^verbatim>\<open>valid == 1\<close>,
  \<^verbatim>\<open>DequeueNext\<close> returns false and changes nothing: the handle with the whole shared
  queue (every slot's value, \<^verbatim>\<open>valid\<close> and \<^verbatim>\<open>write_waiters\<close>, \<^verbatim>\<open>write_length\<close>,
  \<^verbatim>\<open>head_index\<close>), the tail index and the caller's object are what they were.
\<close>

theorem DequeueNext_empty_unchanged:
  assumes "unat (tail_index h) < length (array (queue h))"
    and "valid (array (queue h) ! unat (tail_index h)) \<noteq> 1"
  shows "DequeueNext h item = Inr (False, h, item)"
  using assms by (rule DequeueNext_empty)

theorem DequeueNext_empty_unchanged_witness:
  "MpscQueue_new (Some (pool_block 12)) = Inr (fresh (pool_block 12)) \<and>
   unat (tail_index (fresh (pool_block 12))) < length (array (queue (fresh (pool_block 12)))) \<and>
   valid (array (queue (fresh (pool_block 12))) ! unat (tail_index (fresh (pool_block 12)))) \<noteq> 1 \<and>
   DequeueNext (fresh (pool_block 12)) (out_object 12) =
     Inr (False, fresh (pool_block 12), out_object 12)"
proof -
  have a: "unat (tail_index (fresh (pool_block 12))) < length (array (queue (fresh (pool_block 12))))"
    by (simp add: fresh_def pool_block_def)
  have b: "valid (array (queue (fresh (pool_block 12))) ! unat (tail_index (fresh (pool_block 12)))) \<noteq> 1"
    by (simp add: fresh_def pool_block_def zeroed_def)
  show ?thesis
    using a b DequeueNext_empty_unchanged[OF a b, of "out_object 12"]
      MpscQueue_new_fresh[OF pool_block_length, of 12]
    by simp
qed

section \<open>Releasing the mutex\<close>

text \<open>
  Claim C9. \<^verbatim>\<open>MutexRelease\<close> on a mutex in state 1 sets the state to 0 and makes no futex
  call; in state 2 it sets the state to 0 and calls \<^verbatim>\<open>FutexWake(state, 1)\<close>, once; in any
  other state (0, a double release, among them) the assertion
  \<^verbatim>\<open>"Double-releasing lock?"\<close> fails.
\<close>

theorem MutexRelease_by_state:
  "(state mutex = 1 \<longrightarrow> MutexRelease mutex = Inr (mutex\<lparr>state := 0\<rparr>, [])) \<and>
   (state mutex = 2 \<longrightarrow> MutexRelease mutex = Inr (mutex\<lparr>state := 0\<rparr>, [FutexWake MutexState 1])) \<and>
   (state mutex \<noteq> 1 \<and> state mutex \<noteq> 2 \<longrightarrow>
      MutexRelease mutex = Inl (AssertionFailed ''Double-releasing lock?''))"
  by (simp add: MutexRelease_def CompareExchange_def)

theorem MutexRelease_by_state_witness:
  "MutexRelease \<lparr>state = 1\<rparr> = Inr (\<lparr>state = 0\<rparr>, []) \<and>
   MutexRelease \<lparr>state = 2\<rparr> = Inr (\<lparr>state = 0\<rparr>, [FutexWake MutexState 1]) \<and>
   MutexRelease (MutexInit \<lparr>state = 2\<rparr>) = Inl (AssertionFailed ''Double-releasing lock?'') \<and>
   MutexRelease \<lparr>state = 3\<rparr> = Inl (AssertionFailed ''Double-releasing lock?'')"
  using MutexRelease_by_state[of "\<lparr>state = 1\<rparr>"] MutexRelease_by_state[of "\<lparr>state = 2\<rparr>"]
    MutexRelease_by_state[of "MutexInit \<lparr>state = 2\<rparr>"] MutexRelease_by_state[of "\<lparr>state = 3\<rparr>"]
  by (simp add: MutexInit_def)

section \<open>Calls in sequence, and what each call keeps\<close>

lemma run_append:
  "run h (as @ bs) =
     (case run h as of
        Inl e \<Rightarrow> Inl e
      | Inr (rs, h1) \<Rightarrow>
          (case run h1 bs of Inl e \<Rightarrow> Inl e | Inr (rs', h2) \<Rightarrow> Inr (rs @ rs', h2)))"
  by (induction as arbitrary: h) (auto split: sum.splits prod.splits)

lemma Enqueue_step:
  assumes "seq_inv h t n" "n < 64"
  shows "\<exists>h'. Enqueue h x = Inr (True, h') \<and> seq_inv h' t (Suc n)"
  using Enqueue_state[OF assms] Enqueue_inv[OF assms] by blast

lemma run_enqueues:
  "seq_inv h t n \<Longrightarrow> n + length xs \<le> 64 \<Longrightarrow>
   \<exists>h'. run h (map CallEnqueue xs) = Inr (replicate (length xs) (EnqueueReturned True), h') \<and>
        seq_inv h' t (n + length xs)"
proof (induction xs arbitrary: h n)
  case Nil
  then show ?case by simp
next
  case (Cons x xs)
  then have n: "n < 64" by simp
  from Enqueue_step[OF Cons.prems(1) n] obtain h1 where
    h1: "Enqueue h x = Inr (True, h1)" "seq_inv h1 t (Suc n)" by blast
  have "Suc n + length xs \<le> 64" using Cons.prems(2) by simp
  from Cons.IH[OF h1(2) this] obtain h' where
    h': "run h1 (map CallEnqueue xs) = Inr (replicate (length xs) (EnqueueReturned True), h')"
      "seq_inv h' t (Suc n + length xs)" by blast
  show ?case using h1(1) h' by simp
qed

lemma env_keeps_Nil: "env_keeps P []"
  by (simp add: env_keeps_def)

lemma env_keeps_Cons: "env_keeps P (e # es) \<longleftrightarrow> (\<forall>q. P q \<longrightarrow> P (e q)) \<and> env_keeps P es"
  by (auto simp add: env_keeps_def)

lemma write_wait_loop_keeps:
  "env_keeps P es \<Longrightarrow> P q \<Longrightarrow> write_wait_loop es i my q calls = Inr (q', calls') \<Longrightarrow> P q'"
  by (induction es arbitrary: q calls) (auto simp add: env_keeps_Cons split: if_splits)

lemma write_wait_loop_error:
  "write_wait_loop es i my q calls = Inl e \<Longrightarrow> e = BlocksForever"
  by (induction es arbitrary: q calls) (auto split: if_splits)

lemma read_wait_loop_keeps:
  "env_keeps P es \<Longrightarrow> P q \<Longrightarrow> read_wait_loop es i q calls = Inr (q', calls') \<Longrightarrow> P q'"
  by (induction es arbitrary: q calls) (auto simp add: env_keeps_Cons split: if_splits)

lemma read_wait_loop_error:
  "read_wait_loop es i q calls = Inl e \<Longrightarrow> e = BlocksForever"
  by (induction es arbitrary: q calls) (auto split: if_splits)

lemma read_wait_loop_exit:
  "read_wait_loop es i q calls = Inr (q', calls') \<Longrightarrow> valid (array q' ! i) \<noteq> 2"
  by (induction es arbitrary: q calls) (auto split: if_splits)

lemma publish_error:
  "publish h i x = Inl e \<Longrightarrow> e = AssertionFailed ''Attempt to overwrite existing space!''"
  unfolding publish_def Exchange_def Let_def split_conv by (auto split: if_splits)

lemma publish_array:
  "publish h i x = Inr h' \<Longrightarrow>
   \<exists>v. array (queue h') = (array (queue h))[i := (array (queue h) ! i)\<lparr>val := v, valid := 1\<rparr>] \<and>
       tail_index h' = tail_index h"
  unfolding publish_def Exchange_def Let_def split_conv by (auto split: if_splits)

lemma DoEnqueue_split:
  "DoEnqueue es h x b =
     (if length (array (queue h)) \<le> unat (head_index (queue h) AND 63) then Inl OutOfBounds
      else if b
      then (case write_wait_loop es (unat (head_index (queue h) AND 63))
                   (low_half (write_waiters (array (queue h) ! unat (head_index (queue h) AND 63))) AND 0x7FFF)
                   ((queue h)\<lparr>head_index := (head_index (queue h) + 1) AND 63,
                       array := (array (queue h))[unat (head_index (queue h) AND 63) :=
                         ticketed (array (queue h) ! unat (head_index (queue h) AND 63))]\<rparr>)
                   (futex_calls h) of
              Inl e \<Rightarrow> Inl e
            | Inr (q2, calls) \<Rightarrow>
                publish (h\<lparr>queue := q2, futex_calls := calls\<rparr>) (unat (head_index (queue h) AND 63)) x)
      else publish (h\<lparr>queue := (queue h)\<lparr>head_index := (head_index (queue h) + 1) AND 63,
              array := (array (queue h))[unat (head_index (queue h) AND 63) := ticketed (array (queue h) ! unat (head_index (queue h) AND 63))]\<rparr>\<rparr>)
             (unat (head_index (queue h) AND 63)) x)"
  unfolding DoEnqueue_def DoWriteBlocking_def ExchangeAdd_def BitwiseAnd_def ExchangeAddWord_def wrapping_mask_eq ticketed_def Let_def split_conv
  by simp

lemma unat_and_63_less: "unat ((w :: 32 word) AND 63) < 64"
  by (simp add: unat_and_63)

lemma valid_ok_update:
  "valid_ok q \<Longrightarrow> valid nd = 0 \<or> valid nd = 1 \<or> valid nd = 2 \<Longrightarrow> array q' = (array q)[i := nd] \<Longrightarrow> valid_ok q'"
  unfolding valid_ok_def using set_update_subset_insert[of "array q" i nd] by auto

lemma valid_ok_nth: "valid_ok q \<Longrightarrow> i < length (array q) \<Longrightarrow> valid (array q ! i) = 0 \<or> valid (array q ! i) = 1 \<or> valid (array q ! i) = 2"
  unfolding valid_ok_def by simp

lemma valid_ok_same_valid:
  "valid_ok q \<Longrightarrow> i < length (array q) \<Longrightarrow> valid nd = valid (array q ! i) \<Longrightarrow> array q' = (array q)[i := nd] \<Longrightarrow> valid_ok q'"
  using valid_ok_nth[of q i] valid_ok_update[of q nd q' i] by auto

lemma DoEnqueue_not_out_of_bounds:
  assumes "length (array (queue h)) = 64"
  shows "DoEnqueue es h x b \<noteq> Inl OutOfBounds"
  using assms unat_and_63_less[of "head_index (queue h)"]
  unfolding DoEnqueue_split
  by (auto split: sum.splits dest: write_wait_loop_error publish_error)

lemma DoEnqueue_keeps_slots:
  assumes "slots n (queue h)" "env_keeps (slots n) es" "DoEnqueue es h x b = Inr h'"
  shows "slots n (queue h') \<and> tail_index h' = tail_index h"
proof -
  let ?i = "unat (head_index (queue h) AND 63)"
  let ?q1 = "(queue h)\<lparr>head_index := (head_index (queue h) + 1) AND 63,
                       array := (array (queue h))[?i := ticketed (array (queue h) ! ?i)]\<rparr>"
  have q1: "slots n ?q1" using assms(1) by (simp add: slots_def)
  show ?thesis
  proof (cases b)
    case True
    with assms(3) obtain q2 calls where
      loop: "write_wait_loop es ?i (low_half (write_waiters (array (queue h) ! ?i)) AND 0x7FFF) ?q1 (futex_calls h) = Inr (q2, calls)"
      and pub: "publish (h\<lparr>queue := q2, futex_calls := calls\<rparr>) ?i x = Inr h'"
      unfolding DoEnqueue_split by (auto split: sum.splits if_splits)
    have "slots n q2" using write_wait_loop_keeps[OF assms(2) q1 loop] .
    with publish_array[OF pub] show ?thesis by (auto simp add: slots_def)
  next
    case False
    with assms(3) have pub: "publish (h\<lparr>queue := ?q1\<rparr>) ?i x = Inr h'"
      unfolding DoEnqueue_split by (auto split: if_splits)
    with publish_array[OF pub] q1 show ?thesis by (auto simp add: slots_def)
  qed
qed

lemma DoEnqueue_keeps_valid_ok:
  assumes "valid_ok (queue h)" "env_keeps valid_ok es" "DoEnqueue es h x b = Inr h'"
  shows "valid_ok (queue h')"
proof -
  let ?i = "unat (head_index (queue h) AND 63)"
  let ?q1 = "(queue h)\<lparr>head_index := (head_index (queue h) + 1) AND 63,
                       array := (array (queue h))[?i := ticketed (array (queue h) ! ?i)]\<rparr>"
  have i: "?i < length (array (queue h))"
    using assms(3) unfolding DoEnqueue_split by (auto split: if_splits)
  have q1: "valid_ok ?q1"
    by (rule valid_ok_same_valid[OF assms(1) i, of "ticketed (array (queue h) ! ?i)"]) (simp_all add: ticketed_def)
  show ?thesis
  proof (cases b)
    case True
    with assms(3) obtain q2 calls where
      loop: "write_wait_loop es ?i (low_half (write_waiters (array (queue h) ! ?i)) AND 0x7FFF) ?q1 (futex_calls h) = Inr (q2, calls)"
      and pub: "publish (h\<lparr>queue := q2, futex_calls := calls\<rparr>) ?i x = Inr h'"
      unfolding DoEnqueue_split by (auto split: sum.splits if_splits)
    have q2: "valid_ok q2" using write_wait_loop_keeps[OF assms(2) q1 loop] .
    from publish_array[OF pub] obtain v where
      "array (queue h') = (array q2)[?i := (array q2 ! ?i)\<lparr>val := v, valid := 1\<rparr>]" by auto
    then show ?thesis by (intro valid_ok_update[OF q2, of "(array q2 ! ?i)\<lparr>val := v, valid := 1\<rparr>"]) simp_all
  next
    case False
    with assms(3) have pub: "publish (h\<lparr>queue := ?q1\<rparr>) ?i x = Inr h'"
      unfolding DoEnqueue_split by (auto split: if_splits)
    from publish_array[OF pub] obtain v where
      "array (queue h') = (array ?q1)[?i := (array ?q1 ! ?i)\<lparr>val := v, valid := 1\<rparr>]" by auto
    then have "array (queue h') =
        (array (queue h))[?i := (ticketed (array (queue h) ! ?i))\<lparr>val := v, valid := 1\<rparr>]"
      using i by simp
    then show ?thesis by (rule valid_ok_update[OF assms(1), rotated]) simp
  qed
qed

lemma Reserve_frame:
  "array (queue (snd (Reserve h))) = array (queue h)"
  "tail_index (snd (Reserve h)) = tail_index h"
  "head_index (queue (snd (Reserve h))) = head_index (queue h)"
  unfolding Reserve_def ExchangeAdd_def Let_def split_conv by simp_all

lemma set_valid_sel:
  "length (array (set_valid q i v)) = length (array q)"
  "i < length (array q) \<Longrightarrow> valid (array (set_valid q i v) ! i) = v"
  by (simp_all add: set_valid_def)

lemma set_valid_slots: "slots n (set_valid q i v) = slots n q"
  by (simp add: slots_def set_valid_def)

lemma set_valid_valid_ok:
  "valid_ok q \<Longrightarrow> v = 0 \<or> v = 1 \<or> v = 2 \<Longrightarrow> valid_ok (set_valid q i v)"
  by (rule valid_ok_update[of q "(array q ! i)\<lparr>valid := v\<rparr>" _ i]) (simp_all add: set_valid_def)

lemma claim_slot_split:
  "claim_slot es h i =
     (case (if valid (array (queue h) ! i) = 1 then Inr (set_valid (queue h) i 0, futex_calls h)
            else case (if valid (array (queue h) ! i) = 0
                       then read_wait_loop es i (set_valid (queue h) i 2) (futex_calls h)
                       else Inr (queue h, futex_calls h)) of
                   Inl e \<Rightarrow> Inl e
                 | Inr (q2, calls) \<Rightarrow> Inr (set_valid q2 i 0, calls)) of
        Inl e \<Rightarrow> Inl e
      | Inr (q3, calls) \<Rightarrow>
          if valid (array q3 ! i) = 0 then Inr (h\<lparr>queue := q3, futex_calls := calls\<rparr>)
          else Inl (AssertionFailed ''Reading from node not marked as invalid.''))"
  unfolding claim_slot_def CompareExchange_def Exchange_def Let_def split_conv
  by (simp split: sum.splits)

lemma claim_slot_error:
  "claim_slot es h i = Inl e \<Longrightarrow>
   e = BlocksForever \<or> e = AssertionFailed ''Reading from node not marked as invalid.''"
  unfolding claim_slot_split
  by (auto split: sum.splits if_splits dest: read_wait_loop_error)

lemma claim_slot_keeps:
  assumes "P (queue h)" "env_keeps P es" "\<And>q v. P q \<Longrightarrow> v = 0 \<or> v = 2 \<Longrightarrow> P (set_valid q i v)"
    and "claim_slot es h i = Inr h1"
  shows "P (queue h1) \<and> tail_index h1 = tail_index h \<and> valid (array (queue h1) ! i) = 0"
proof -
  have a: "P (set_valid (queue h) i 0)" "P (set_valid (queue h) i 2)"
    using assms(1,3) by simp_all
  have b: "\<And>q2 calls. read_wait_loop es i (set_valid (queue h) i 2) (futex_calls h) = Inr (q2, calls)
             \<Longrightarrow> P (set_valid q2 i 0)"
    using read_wait_loop_keeps[OF assms(2) a(2)] assms(3) by blast
  show ?thesis
    using assms(4) a b unfolding claim_slot_split
    by (auto split: sum.splits if_splits)
qed

lemma DoDequeue_sel:
  "array (queue (fst (DoDequeue h item i))) =
     (array (queue h))[i := (array (queue h) ! i)\<lparr>write_waiters :=
        set_high_half (write_waiters (array (queue h) ! i)) (high_half (write_waiters (array (queue h) ! i)) + 1)\<rparr>]"
  "tail_index (fst (DoDequeue h item i)) = (tail_index h + 1) AND 63"
  "futex_calls (fst (DoDequeue h item i)) = futex_calls h"
  "write_length (queue (fst (DoDequeue h item i))) = write_length (queue h)"
  "head_index (queue (fst (DoDequeue h item i))) = head_index (queue h)"
  "blocked_threads (queue (fst (DoDequeue h item i))) = blocked_threads (queue h)"
  "snd (DoDequeue h item i) = item\<lparr>bytes := bytes (val (array (queue h) ! i))\<rparr>"
  unfolding DoDequeue_def IncrementWord_def wrapping_mask_eq Let_def by simp_all

lemma DoDequeue_valid:
  "i < length (array (queue h)) \<Longrightarrow>
   valid (array (queue (fst (DoDequeue h item i))) ! i) = valid (array (queue h) ! i)"
  by (simp add: DoDequeue_sel)

lemma DoDequeue_valid_ok:
  "valid_ok (queue h) \<Longrightarrow> i < length (array (queue h)) \<Longrightarrow> valid_ok (queue (fst (DoDequeue h item i)))"
  by (rule valid_ok_same_valid[of "queue h" i _ _]) (simp_all add: DoDequeue_sel)

lemma DoDequeue_slots: "slots n (queue (fst (DoDequeue h item i))) = slots n (queue h)"
  by (simp add: slots_def DoDequeue_sel)

lemma DequeueNextBlocking_split:
  "DequeueNextBlocking es h item =
     (if length (array (queue h)) \<le> unat (tail_index h) then Inl OutOfBounds
      else case claim_slot es h (unat (tail_index h)) of
             Inl e \<Rightarrow> Inl e
           | Inr h1 \<Rightarrow>
               Inr ((fst (DoDequeue h1 item (unat (tail_index h))))
                      \<lparr>queue := (queue (fst (DoDequeue h1 item (unat (tail_index h)))))
                          \<lparr>write_length := write_length (queue h1) - 1\<rparr>,
                        futex_calls :=
                          (if kQueueCapacity < sint (write_length (queue h1))
                           then futex_calls h1 @ [FutexWake (WriteWaitersOf (unat (tail_index h))) (- 1)]
                           else futex_calls h1)\<rparr>,
                    snd (DoDequeue h1 item (unat (tail_index h)))))"
  unfolding DequeueNextBlocking_def ExchangeAdd_def Let_def
  by (simp add: DoDequeue_sel split_beta split: sum.splits)

lemma Enqueue_split:
  "Enqueue h x =
     (if fst (Reserve h)
      then (case DoEnqueue [] (snd (Reserve h)) x False of Inl e \<Rightarrow> Inl e | Inr h2 \<Rightarrow> Inr (True, h2))
      else Inr (False, snd (Reserve h)))"
  unfolding Enqueue_def EnqueueAt_def by (cases "Reserve h") (auto split: bool.splits)

lemma Reserve_valid_ok: "valid_ok (queue (snd (Reserve h))) = valid_ok (queue h)"
  by (simp add: valid_ok_def Reserve_frame)

lemma Reserve_slots: "slots n (queue (snd (Reserve h))) = slots n (queue h)"
  by (simp add: slots_def Reserve_frame)

lemma bounds_ok_iff: "bounds_ok h \<longleftrightarrow> slots 64 (queue h) \<and> unat (tail_index h) < 64"
  by (simp add: bounds_ok_def slots_def kQueueCapacity_def)

lemma Enqueue_bounds:
  assumes "bounds_ok h"
  shows "Enqueue h x \<noteq> Inl OutOfBounds \<and> (\<forall>b h'. Enqueue h x = Inr (b, h') \<longrightarrow> bounds_ok h')"
proof -
  have s: "slots 64 (queue (snd (Reserve h)))" and t: "unat (tail_index (snd (Reserve h))) < 64"
    using assms by (simp_all add: bounds_ok_iff Reserve_slots Reserve_frame)
  have "DoEnqueue [] (snd (Reserve h)) x False \<noteq> Inl OutOfBounds"
    using s by (intro DoEnqueue_not_out_of_bounds) (simp add: slots_def)
  moreover have "\<And>h2. DoEnqueue [] (snd (Reserve h)) x False = Inr h2 \<Longrightarrow> bounds_ok h2"
    using DoEnqueue_keeps_slots[OF s env_keeps_Nil] t by (simp add: bounds_ok_iff)
  ultimately show ?thesis
    using s t unfolding Enqueue_split by (auto simp add: bounds_ok_iff split: sum.splits)
qed

lemma EnqueueBlocking_bounds:
  assumes "bounds_ok h" "env_keeps (slots 64) es"
  shows "EnqueueBlocking es h x \<noteq> Inl OutOfBounds \<and> (\<forall>h'. EnqueueBlocking es h x = Inr h' \<longrightarrow> bounds_ok h')"
proof -
  let ?h1 = "h\<lparr>queue := (queue h)\<lparr>write_length := Increment (write_length (queue h))\<rparr>\<rparr>"
  have s: "slots 64 (queue ?h1)" and t: "unat (tail_index ?h1) < 64"
    using assms(1) by (simp_all add: bounds_ok_iff slots_def)
  have "DoEnqueue es ?h1 x True \<noteq> Inl OutOfBounds"
    using s by (intro DoEnqueue_not_out_of_bounds) (simp add: slots_def)
  moreover have "\<And>h2. DoEnqueue es ?h1 x True = Inr h2 \<Longrightarrow> bounds_ok h2"
    using DoEnqueue_keeps_slots[OF s assms(2)] t by (simp add: bounds_ok_iff)
  ultimately show ?thesis unfolding EnqueueBlocking_def by blast
qed

lemma DequeueNext_split:
  "DequeueNext h item =
     (if length (array (queue h)) \<le> unat (tail_index h) then Inl OutOfBounds
      else if valid (array (queue h) ! unat (tail_index h)) = 1
      then Inr (True, deq_state h (unat (tail_index h)),
                item\<lparr>bytes := bytes (val (array (queue h) ! unat (tail_index h)))\<rparr>)
      else Inr (False, h, item))"
  using DequeueNext_full[of h "unat (tail_index h)" item] DequeueNext_empty[of h item]
  by (auto simp add: DequeueNext_def Let_def)

lemma DequeueNext_bounds:
  assumes "bounds_ok h"
  shows "DequeueNext h item \<noteq> Inl OutOfBounds \<and> (\<forall>b h' y. DequeueNext h item = Inr (b, h', y) \<longrightarrow> bounds_ok h')"
  using assms unat_and_63_less[of "tail_index h + 1"]
  unfolding DequeueNext_split
  by (auto simp add: bounds_ok_iff slots_def deq_state_sel)

lemma DequeueNextBlocking_bounds:
  assumes "bounds_ok h" "env_keeps (slots 64) es"
  shows "DequeueNextBlocking es h item \<noteq> Inl OutOfBounds \<and>
         (\<forall>h' y. DequeueNextBlocking es h item = Inr (h', y) \<longrightarrow> bounds_ok h')"
proof -
  have s: "slots 64 (queue h)" and t: "unat (tail_index h) < 64"
    using assms(1) by (simp_all add: bounds_ok_iff)
  have inb: "\<not> length (array (queue h)) \<le> unat (tail_index h)"
    using s t by (simp add: slots_def)
  show ?thesis
  proof (cases "claim_slot es h (unat (tail_index h))")
    case (Inl e)
    then have "DequeueNextBlocking es h item = Inl e"
      unfolding DequeueNextBlocking_split using inb by simp
    with claim_slot_error[OF Inl] show ?thesis by auto
  next
    case (Inr h1)
    have "slots 64 (queue h1)"
      using claim_slot_keeps[OF s assms(2) _ Inr] by (simp add: set_valid_slots)
    then have "bounds_ok (fst (DoDequeue h1 item (unat (tail_index h)))
        \<lparr>queue := (queue (fst (DoDequeue h1 item (unat (tail_index h)))))\<lparr>write_length := wl\<rparr>,
          futex_calls := fc\<rparr>)" for wl fc
      using unat_and_63_less[of "tail_index h1 + 1"]
      by (simp add: bounds_ok_iff slots_def DoDequeue_sel)
    then show ?thesis
      unfolding DequeueNextBlocking_split using inb Inr by simp
  qed
qed

lemma call_op_bounds:
  assumes "bounds_ok h" "call_env_keeps (slots 64) c"
  shows "call_op h c \<noteq> Inl OutOfBounds \<and> (\<forall>r h'. call_op h c = Inr (r, h') \<longrightarrow> bounds_ok h')"
proof (cases c)
  case (CallEnqueue x)
  then show ?thesis using Enqueue_bounds[OF assms(1), of x] by (auto split: sum.splits)
next
  case (CallDequeueNext item)
  then show ?thesis using DequeueNext_bounds[OF assms(1), of item] by (auto split: sum.splits)
next
  case (CallEnqueueBlocking es x)
  then have "env_keeps (slots 64) es" using assms(2) by (simp add: call_env_keeps_def)
  from EnqueueBlocking_bounds[OF assms(1) this, of x] CallEnqueueBlocking
  show ?thesis by (auto split: sum.splits)
next
  case (CallDequeueNextBlocking es item)
  then have "env_keeps (slots 64) es" using assms(2) by (simp add: call_env_keeps_def)
  from DequeueNextBlocking_bounds[OF assms(1) this, of item] CallDequeueNextBlocking
  show ?thesis by (auto split: sum.splits)
qed

lemma run_bounds:
  "bounds_ok h \<Longrightarrow> \<forall>c\<in>set cs. call_env_keeps (slots 64) c \<Longrightarrow>
   run h cs \<noteq> Inl OutOfBounds \<and> (\<forall>rs h'. run h cs = Inr (rs, h') \<longrightarrow> bounds_ok h')"
proof (induction cs arbitrary: h)
  case Nil
  then show ?case by simp
next
  case (Cons c cs)
  have c: "call_env_keeps (slots 64) c" and cs: "\<forall>c\<in>set cs. call_env_keeps (slots 64) c"
    using Cons.prems(2) by simp_all
  note op = call_op_bounds[OF Cons.prems(1) c]
  show ?case
  proof (cases "call_op h c")
    case (Inl e)
    with op show ?thesis by simp
  next
    case (Inr p)
    obtain r h1 where p: "p = (r, h1)" by (cases p)
    with Inr op have "bounds_ok h1" by simp
    from Cons.IH[OF this cs] Inr p show ?thesis by (auto split: sum.splits)
  qed
qed

lemma fresh_bounds: "length (array mem) = 64 \<Longrightarrow> bounds_ok (fresh mem)"
  by (simp add: bounds_ok_iff slots_def fresh_def)

lemma fresh_sel:
  "array (queue (fresh mem)) = map zeroed (array mem)"
  "write_length (queue (fresh mem)) = 0"
  "head_index (queue (fresh mem)) = 0"
  "blocked_threads (queue (fresh mem)) = blocked_threads mem"
  "tail_index (fresh mem) = 0"
  "futex_calls (fresh mem) = []"
  by (simp_all add: fresh_def)

lemma fresh_quiescent: "quiescent (queue (fresh mem))"
  by (simp add: quiescent_def fresh_sel zeroed_def)

lemma quiescent_valid_ok: "quiescent q \<Longrightarrow> valid_ok q"
  by (auto simp add: quiescent_def valid_ok_def)

lemma Enqueue_valid_ok:
  assumes "valid_ok (queue h)" "Enqueue h x = Inr (b, h')"
  shows "valid_ok (queue h')"
proof (cases "fst (Reserve h)")
  case True
  with assms(2) have "DoEnqueue [] (snd (Reserve h)) x False = Inr h'"
    unfolding Enqueue_split by (auto split: sum.splits)
  moreover have "valid_ok (queue (snd (Reserve h)))"
    using assms(1) by (simp add: Reserve_valid_ok)
  ultimately show ?thesis
    using DoEnqueue_keeps_valid_ok[OF _ env_keeps_Nil] by blast
next
  case False
  with assms show ?thesis unfolding Enqueue_split by (auto simp add: Reserve_valid_ok)
qed

lemma EnqueueBlocking_valid_ok:
  assumes "valid_ok (queue h)" "env_keeps valid_ok es" "EnqueueBlocking es h x = Inr h'"
  shows "valid_ok (queue h')"
proof -
  have "valid_ok (queue (h\<lparr>queue := (queue h)\<lparr>write_length := Increment (write_length (queue h))\<rparr>\<rparr>))"
    using assms(1) by (simp add: valid_ok_def)
  from DoEnqueue_keeps_valid_ok[OF this assms(2)] assms(3) show ?thesis
    unfolding EnqueueBlocking_def by blast
qed

lemma DequeueNext_valid_ok:
  assumes "valid_ok (queue h)" "DequeueNext h item = Inr (b, h', y)"
  shows "valid_ok (queue h')"
proof (cases b)
  case True
  with assms(2) have "h' = deq_state h (unat (tail_index h))"
    unfolding DequeueNext_split by (auto split: if_splits)
  then have "array (queue h') = (array (queue h))[unat (tail_index h) := deq_node (array (queue h) ! unat (tail_index h))]"
    by (simp add: deq_state_sel)
  then show ?thesis by (rule valid_ok_update[OF assms(1), rotated]) (simp add: deq_node_sel)
next
  case False
  with assms show ?thesis unfolding DequeueNext_split by (auto split: if_splits)
qed

lemma env_keeps_conj:
  "env_keeps P es \<Longrightarrow> env_keeps Q es \<Longrightarrow> env_keeps (\<lambda>q. P q \<and> Q q) es"
  by (simp add: env_keeps_def)

lemma DequeueNextBlocking_result:
  assumes "DequeueNextBlocking es h item = Inr (h', y)"
  obtains h1 where "claim_slot es h (unat (tail_index h)) = Inr h1"
    and "unat (tail_index h) < length (array (queue h))"
    and "array (queue h') = array (queue (fst (DoDequeue h1 item (unat (tail_index h)))))"
proof -
  have inb: "\<not> length (array (queue h)) \<le> unat (tail_index h)"
    using assms unfolding DequeueNextBlocking_split by (auto split: if_splits)
  with assms obtain h1 where h1: "claim_slot es h (unat (tail_index h)) = Inr h1"
    unfolding DequeueNextBlocking_split by (auto split: sum.splits)
  with assms inb have "array (queue h') = array (queue (fst (DoDequeue h1 item (unat (tail_index h)))))"
    unfolding DequeueNextBlocking_split by auto
  with h1 inb that show ?thesis by simp
qed

lemma DequeueNextBlocking_valid_ok:
  assumes "valid_ok (queue h)" "env_keeps valid_ok es" "env_keeps (slots (length (array (queue h)))) es"
    and "DequeueNextBlocking es h item = Inr (h', y)"
  shows "valid_ok (queue h') \<and> valid (array (queue h') ! unat (tail_index h)) = 0"
proof -
  let ?i = "unat (tail_index h)"
  let ?n = "length (array (queue h))"
  from DequeueNextBlocking_result[OF assms(4)] obtain h1 where
    h1: "claim_slot es h ?i = Inr h1" and i: "?i < ?n"
    and arr: "array (queue h') = array (queue (fst (DoDequeue h1 item ?i)))" by blast
  have P: "valid_ok (queue h) \<and> slots ?n (queue h)" using assms(1) by (simp add: slots_def)
  have cl: "valid_ok (set_valid q ?i v) \<and> slots ?n (set_valid q ?i v)"
    if "valid_ok q \<and> slots ?n q" "v = 0 \<or> v = 2" for q v
    using that set_valid_valid_ok[of q v ?i] by (auto simp add: set_valid_slots)
  have "valid_ok (queue h1) \<and> slots ?n (queue h1)" and z: "valid (array (queue h1) ! ?i) = 0"
    using claim_slot_keeps[where P = "\<lambda>q. valid_ok q \<and> slots ?n q", OF P env_keeps_conj[OF assms(2,3)] cl h1]
    by blast+
  then have v1: "valid_ok (queue h1)" and n1: "?i < length (array (queue h1))"
    using i by (simp_all add: slots_def)
  have "valid_ok (queue (fst (DoDequeue h1 item ?i)))" using v1 n1 by (rule DoDequeue_valid_ok)
  then have "valid_ok (queue h')" using arr by (simp add: valid_ok_def)
  moreover have "valid (array (queue h') ! ?i) = 0"
    unfolding arr using DoDequeue_valid[OF n1] z by simp
  ultimately show ?thesis by simp
qed

lemma others_quiescent_set_valid:
  "others_quiescent i q \<Longrightarrow> others_quiescent i (set_valid q i v)"
  by (simp add: others_quiescent_def set_valid_def nth_list_update)

lemma quiescent_others: "quiescent q \<Longrightarrow> others_quiescent i q"
  by (simp add: quiescent_def others_quiescent_def)

lemma others_quiescent_zero:
  assumes "others_quiescent i q" "valid (array q ! i) = 0"
  shows "quiescent q"
  unfolding quiescent_def
proof
  fix nd assume "nd \<in> set (array q)"
  then obtain j where j: "j < length (array q)" "nd = array q ! j" by (auto simp add: in_set_conv_nth)
  show "valid nd = 0 \<or> valid nd = 1"
  proof (cases "j = i")
    case True
    with j assms(2) show ?thesis by simp
  next
    case False
    with j assms(1) show ?thesis by (simp add: others_quiescent_def)
  qed
qed

lemma DequeueNextBlocking_quiescent:
  assumes "quiescent (queue h)" "env_keeps (others_quiescent (unat (tail_index h))) es"
    and "env_keeps (slots (length (array (queue h)))) es"
    and "DequeueNextBlocking es h item = Inr (h', y)"
  shows "quiescent (queue h')"
proof -
  let ?i = "unat (tail_index h)"
  let ?n = "length (array (queue h))"
  from DequeueNextBlocking_result[OF assms(4)] obtain h1 where
    h1: "claim_slot es h ?i = Inr h1" and i: "?i < ?n"
    and arr: "array (queue h') = array (queue (fst (DoDequeue h1 item ?i)))" by blast
  have P: "others_quiescent ?i (queue h) \<and> slots ?n (queue h)"
    using assms(1) by (simp add: slots_def quiescent_others)
  have cl: "others_quiescent ?i (set_valid q ?i v) \<and> slots ?n (set_valid q ?i v)"
    if "others_quiescent ?i q \<and> slots ?n q" "v = 0 \<or> v = 2" for q v
    using that others_quiescent_set_valid[of ?i q v] by (auto simp add: set_valid_slots)
  have "others_quiescent ?i (queue h1) \<and> slots ?n (queue h1)" and z: "valid (array (queue h1) ! ?i) = 0"
    using claim_slot_keeps[where P = "\<lambda>q. others_quiescent ?i q \<and> slots ?n q", OF P env_keeps_conj[OF assms(2,3)] cl h1]
    by blast+
  then have q1: "quiescent (queue h1)" using others_quiescent_zero z by blast
  then have "valid_ok (queue h1)" by (rule quiescent_valid_ok)
  have "\<forall>nd\<in>set (array (queue (fst (DoDequeue h1 item ?i)))). valid nd = 0 \<or> valid nd = 1"
  proof
    fix nd assume "nd \<in> set (array (queue (fst (DoDequeue h1 item ?i))))"
    then have "nd \<in> insert ((array (queue h1) ! ?i)\<lparr>write_waiters :=
        set_high_half (write_waiters (array (queue h1) ! ?i)) (high_half (write_waiters (array (queue h1) ! ?i)) + 1)\<rparr>)
        (set (array (queue h1)))"
      unfolding DoDequeue_sel using set_update_subset_insert by fast
    with q1 z show "valid nd = 0 \<or> valid nd = 1" by (auto simp add: quiescent_def)
  qed
  then show ?thesis unfolding quiescent_def arr .
qed

section \<open>Filling the queue\<close>

text \<open>
  Claim C2. On a queue just made, \<^verbatim>\<open>kQueueCapacity\<close> calls of \<^verbatim>\<open>Enqueue\<close> in a row all
  return true. The next one returns false: the fetch-add on \<^verbatim>\<open>write_length\<close> reads a
  value that is at least the capacity, the decrement undoes it (\<^verbatim>\<open>Reserve\<close> returns
  false and leaves the handle and the queue as they were), and so does \<^verbatim>\<open>Enqueue\<close>.
  After one \<^verbatim>\<open>DequeueNext\<close>, which succeeds, a further \<^verbatim>\<open>Enqueue\<close> returns true.
\<close>

theorem fill_then_full:
  assumes "length (array mem) = nat kQueueCapacity" and "length xs = nat kQueueCapacity"
  shows "\<exists>h0 h1 h2 h3 y.
     MpscQueue_new (Some mem) = Inr h0 \<and>
     run h0 (map CallEnqueue xs) = Inr (replicate (nat kQueueCapacity) (EnqueueReturned True), h1) \<and>
     kQueueCapacity \<le> sint (fst (ExchangeAdd (write_length (queue h1)) 1)) \<and>
     Reserve h1 = (False, h1) \<and>
     Enqueue h1 x = Inr (False, h1) \<and>
     DequeueNext h1 item = Inr (True, h2, y) \<and>
     Enqueue h2 z = Inr (True, h3)"
proof -
  have len: "length (array mem) = 64" and xs: "length xs = 64"
    using assms by (simp_all add: kQueueCapacity_def)
  have new: "MpscQueue_new (Some mem) = Inr (fresh mem)" using len by (rule MpscQueue_new_fresh)
  from run_enqueues[OF fresh_inv[OF len], of xs] xs obtain h1 where
    h1: "run (fresh mem) (map CallEnqueue xs) = Inr (replicate 64 (EnqueueReturned True), h1)"
      "seq_inv h1 0 64" by auto
  have wl: "write_length (queue h1) = 64" using h1(2) by (simp add: seq_inv_def)
  have obs: "kQueueCapacity \<le> sint (fst (ExchangeAdd (write_length (queue h1)) 1))"
    by (simp add: wl ExchangeAdd_def kQueueCapacity_def)
  have deq: "DequeueNext h1 item = Inr (True, deq_state h1 0, item\<lparr>bytes := bytes (val (array (queue h1) ! 0))\<rparr>)"
    using Dequeue_state[OF h1(2)] by simp
  have "seq_inv (deq_state h1 0) (slot_of 0 1) 63"
    using Dequeue_inv[OF h1(2)] by simp
  from Enqueue_step[OF this] obtain h3 where "Enqueue (deq_state h1 0) z = Inr (True, h3)" by auto
  with new h1(1) obs Reserve_full[OF h1(2)] Enqueue_full[OF h1(2)] deq
  show ?thesis by (auto simp add: kQueueCapacity_def)
qed

theorem fill_then_full_witness:
  "length (array (pool_block 12)) = nat kQueueCapacity \<and>
   length (replicate 64 item12) = nat kQueueCapacity \<and>
   (\<exists>h0 h1 h2 h3 y.
     MpscQueue_new (Some (pool_block 12)) = Inr h0 \<and>
     run h0 (map CallEnqueue (replicate 64 item12)) =
       Inr (replicate (nat kQueueCapacity) (EnqueueReturned True), h1) \<and>
     kQueueCapacity \<le> sint (fst (ExchangeAdd (write_length (queue h1)) 1)) \<and>
     Reserve h1 = (False, h1) \<and>
     Enqueue h1 item12 = Inr (False, h1) \<and>
     DequeueNext h1 (out_object 12) = Inr (True, h2, y) \<and>
     Enqueue h2 item12 = Inr (True, h3))"
proof -
  have a: "length (array (pool_block 12)) = nat kQueueCapacity"
    by (simp add: pool_block_length kQueueCapacity_def)
  have b: "length (replicate 64 item12) = nat kQueueCapacity"
    by (simp add: kQueueCapacity_def)
  show ?thesis
    using a b fill_then_full[OF a b, of item12 "out_object 12" item12] by blast
qed

section \<open>Construction\<close>




section \<open>Indexing the slot array\<close>

text \<open>
  Claim C10. Every access to the slot array uses an index below \<^verbatim>\<open>kQueueCapacity\<close>. For
  any sequence of calls on a queue just made (the other threads' steps during a blocking
  call leaving the array its 64 slots), no call, and not the constructor, indexes out of
  range. The index an enqueue uses is its own head ticket masked, below the capacity
  whatever \<^verbatim>\<open>head_index\<close> held, so on any queue of 64 slots \<^verbatim>\<open>DoEnqueue\<close> stays in
  range; and the tail index is masked after every advance.
\<close>

theorem indexing_in_bounds:
  assumes "length (array mem) = nat kQueueCapacity"
    and "\<forall>c\<in>set calls. call_env_keeps (slots (nat kQueueCapacity)) c"
  shows "(\<exists>h0. MpscQueue_new (Some mem) = Inr h0 \<and> run h0 calls \<noteq> Inl OutOfBounds) \<and>
     unat (fst (ExchangeAdd old_head 1) AND wrapping_mask) < nat kQueueCapacity \<and>
     unat (tail_index (fst (DoDequeue h item i))) < nat kQueueCapacity \<and>
     (length (array (queue h)) = nat kQueueCapacity \<longrightarrow> DoEnqueue es h x b \<noteq> Inl OutOfBounds)"
proof -
  have len: "length (array mem) = 64" and cs: "\<forall>c\<in>set calls. call_env_keeps (slots 64) c"
    using assms by (simp_all add: kQueueCapacity_def)
  have "run (fresh mem) calls \<noteq> Inl OutOfBounds"
    using run_bounds[OF fresh_bounds[OF len] cs] by simp
  with MpscQueue_new_fresh[OF len]
  have 1: "\<exists>h0. MpscQueue_new (Some mem) = Inr h0 \<and> run h0 calls \<noteq> Inl OutOfBounds" by blast
  have 2: "unat (fst (ExchangeAdd old_head 1) AND wrapping_mask) < nat kQueueCapacity"
    by (simp add: ExchangeAdd_def wrapping_mask_eq kQueueCapacity_def unat_and_63_less)
  have 3: "unat (tail_index (fst (DoDequeue h item i))) < nat kQueueCapacity"
    by (simp add: DoDequeue_sel kQueueCapacity_def unat_and_63_less)
  have 4: "length (array (queue h)) = nat kQueueCapacity \<longrightarrow> DoEnqueue es h x b \<noteq> Inl OutOfBounds"
    using DoEnqueue_not_out_of_bounds[of h es x b] by (simp add: kQueueCapacity_def)
  from 1 2 3 4 show ?thesis by blast
qed

theorem indexing_in_bounds_witness:
  "length (array (pool_block 12)) = nat kQueueCapacity \<and>
   (\<exists>h0. MpscQueue_new (Some (pool_block 12)) = Inr h0 \<and>
         run h0 [CallEnqueue item12, CallEnqueueBlocking [] item12, CallDequeueNext (out_object 12),
                 CallDequeueNextBlocking [] (out_object 12), CallDequeueNext (out_object 12)]
           \<noteq> Inl OutOfBounds) \<and>
   unat (fst (ExchangeAdd 0xFFFFFFFF 1) AND wrapping_mask) < nat kQueueCapacity \<and>
   unat (tail_index (fst (DoDequeue (fresh (pool_block 12)) (out_object 12) 63))) < nat kQueueCapacity \<and>
   DoEnqueue [] (fresh (pool_block 12)) item12 True \<noteq> Inl OutOfBounds"
proof -
  have a: "length (array (pool_block 12)) = nat kQueueCapacity"
    by (simp add: pool_block_length kQueueCapacity_def)
  have b: "\<forall>c\<in>set [CallEnqueue item12, CallEnqueueBlocking [] item12, CallDequeueNext (out_object 12),
                 CallDequeueNextBlocking [] (out_object 12), CallDequeueNext (out_object 12)].
             call_env_keeps (slots (nat kQueueCapacity)) c"
    by (simp add: call_env_keeps_def env_keeps_Nil)
  have c: "length (array (queue (fresh (pool_block 12)))) = nat kQueueCapacity"
    by (simp add: fresh_sel pool_block_length kQueueCapacity_def)
  show ?thesis
    using a c indexing_in_bounds[OF a b, of "0xFFFFFFFF" "fresh (pool_block 12)" "out_object 12" 63 "[]" item12 True]
    by blast
qed

section \<open>The waiter counters across their wrap\<close>

lemma hi_mask: "(0xFFFF0000 :: 32 word) = NOT (mask 16)"
  by (simp add: mask_eq_exp_minus_1)

lemma lo_mask: "(0xFFFF :: 32 word) = mask 16"
  by (simp add: mask_eq_exp_minus_1)

lemma low_half_set_low_half: "low_half (set_low_half w c) = c"
  unfolding low_half_def set_low_half_def hi_mask
  by (rule bit_word_eqI) (auto simp add: bit_simps dest: bit_imp_le_length)

lemma high_half_set_low_half: "high_half (set_low_half w c) = high_half w"
  unfolding high_half_def set_low_half_def hi_mask
  by (rule bit_word_eqI) (auto simp add: bit_simps dest: bit_imp_le_length)

lemma low_half_set_high_half: "low_half (set_high_half w c) = low_half w"
  unfolding low_half_def set_high_half_def lo_mask
  by (rule bit_word_eqI) (auto simp add: bit_simps dest: bit_imp_le_length)

lemma high_half_set_high_half: "high_half (set_high_half w c) = c"
  unfolding high_half_def set_high_half_def lo_mask
  by (rule bit_word_eqI) (auto simp add: bit_simps dest: bit_imp_le_length)

lemma inverted_halves: "inverted w \<longleftrightarrow> bit (low_half w) 15 \<or> bit (high_half w) 15"
  unfolding inverted_iff low_half_def high_half_def by (simp add: bit_simps)

lemma woken_counter_halves: "woken_counter w = high_half w AND 0x7FFF"
proof -
  have m: "(0x7FFF :: 32 word) = mask 15" "(0x7FFF :: 16 word) = mask 15"
    by (simp_all add: mask_eq_exp_minus_1)
  show ?thesis
    unfolding woken_counter_def high_half_def m
    by (rule bit_word_eqI) (auto simp add: bit_simps dest: bit_imp_le_length)
qed

lemma Enqueue_tickets:
  assumes "seq_inv h t n" "n < 64" "tickets h a b"
  shows "tickets (enq_state (h\<lparr>queue := (queue h)\<lparr>write_length := of_nat (Suc n)\<rparr>\<rparr>) (slot_of t n) x)
           (a(slot_of t n := a (slot_of t n) + 1)) b"
proof -
  have len: "length (array (queue h)) = 64" and t: "t < 64"
    using assms(1) by (simp_all add: seq_inv_def)
  have s: "slot_of t n < 64" using t assms(2) by (simp add: slot_of_less)
  show ?thesis
    using assms(3) s unfolding tickets_def enq_state_sel
    by (simp add: len nth_list_update enq_node_sel low_half_set_low_half high_half_set_low_half)
qed

lemma Dequeue_tickets:
  assumes "seq_inv h t n" "tickets h a b"
  shows "tickets (deq_state h t) a (b(t := b t + 1))"
proof -
  have len: "length (array (queue h)) = 64" and t: "t < 64"
    using assms(1) by (simp_all add: seq_inv_def)
  show ?thesis
    using assms(2) t unfolding tickets_def deq_state_sel
    by (simp add: len nth_list_update deq_node_sel low_half_set_high_half high_half_set_high_half)
qed

lemma upto_round_Suc: "k < 64 \<Longrightarrow> (upto_round r k)(slot_of 0 k := upto_round r k (slot_of 0 k) + 1) = upto_round r (Suc k)"
  by (auto simp add: fun_eq_iff upto_round_def slot_of_def)

lemma upto_round_full: "i < 64 \<Longrightarrow> upto_round r 64 i = upto_round (Suc r) 0 i"
  by (simp add: upto_round_def)

lemma fill:
  "seq_inv h 0 k \<Longrightarrow> tickets h (upto_round r k) b \<Longrightarrow> k + m \<le> 64 \<Longrightarrow>
   \<exists>rs h'. run h (replicate m (CallEnqueue x)) = Inr (rs, h') \<and>
        seq_inv h' 0 (k + m) \<and> tickets h' (upto_round r (k + m)) b"
proof (induction m arbitrary: h k)
  case 0
  then show ?case by simp
next
  case (Suc m)
  then have k: "k < 64" by simp
  let ?h1 = "enq_state (h\<lparr>queue := (queue h)\<lparr>write_length := of_nat (Suc k)\<rparr>\<rparr>) (slot_of 0 k) x"
  have e: "Enqueue h x = Inr (True, ?h1)" using Enqueue_state[OF Suc.prems(1) k] .
  have i: "seq_inv ?h1 0 (Suc k)" using Enqueue_inv[OF Suc.prems(1) k] .
  have "tickets ?h1 (upto_round r (Suc k)) b"
    using Enqueue_tickets[OF Suc.prems(1) k Suc.prems(2), of x] upto_round_Suc[OF k, of r] by simp
  from Suc.IH[OF i this] Suc.prems(3) obtain rs h' where
    "run ?h1 (replicate m (CallEnqueue x)) = Inr (rs, h')" "seq_inv h' 0 (Suc k + m)"
    "tickets h' (upto_round r (Suc k + m)) b" by auto
  with e show ?case by simp
qed

lemma drain:
  "seq_inv h (slot_of 0 k) (64 - k) \<Longrightarrow> tickets h a (upto_round r k) \<Longrightarrow> k + m \<le> 64 \<Longrightarrow>
   \<exists>rs h'. run h (replicate m (CallDequeueNext item)) = Inr (rs, h') \<and>
        seq_inv h' (slot_of 0 (k + m)) (64 - (k + m)) \<and> tickets h' a (upto_round r (k + m))"
proof (induction m arbitrary: h k)
  case 0
  then show ?case by simp
next
  case (Suc m)
  then have k: "k < 64" by simp
  then have n: "0 < 64 - k" by simp
  have t: "slot_of 0 k = k" using k by (simp add: slot_of_def)
  have t1: "slot_of k (Suc 0) = slot_of 0 (Suc k)" using k by (auto simp add: slot_of_def)
  let ?h1 = "deq_state h k"
  have e: "DequeueNext h item = Inr (True, ?h1, item\<lparr>bytes := bytes (val (array (queue h) ! k))\<rparr>)"
    using Dequeue_state[OF Suc.prems(1) n] by (simp add: t)
  have i: "seq_inv ?h1 (slot_of 0 (Suc k)) (64 - Suc k)"
    using Dequeue_inv[OF Suc.prems(1) n] by (simp add: t t1)
  have "tickets ?h1 a (upto_round r (Suc k))"
    using Dequeue_tickets[OF Suc.prems(1) Suc.prems(2)] upto_round_Suc[OF k, of r] by (simp add: t)
  from Suc.IH[OF i this] Suc.prems(3) obtain rs h' where
    "run ?h1 (replicate m (CallDequeueNext item)) = Inr (rs, h')"
    "seq_inv h' (slot_of 0 (Suc k + m)) (64 - (Suc k + m))"
    "tickets h' a (upto_round r (Suc k + m))" by auto
  with e show ?case by simp
qed

lemma keeps_waiting_halves:
  "keeps_waiting w my \<longleftrightarrow>
     (\<not> (bit (low_half w) 15 \<or> bit (high_half w) 15) \<and> high_half w AND 0x7FFF < my) \<or>
     ((bit (low_half w) 15 \<or> bit (high_half w) 15) \<and> high_half w AND 0x7FFF > my)"
  unfolding keeps_waiting_def inverted_halves woken_counter_halves by simp

lemma EnqueueBlocking_full:
  assumes "seq_inv h t 64"
    and "\<not> keeps_waiting (set_low_half (write_waiters (array (queue h) ! t))
                            (low_half (write_waiters (array (queue h) ! t)) + 1))
                          (low_half (write_waiters (array (queue h) ! t)) AND 0x7FFF)"
  shows "EnqueueBlocking [] h x = Inl (AssertionFailed ''Attempt to overwrite existing space!'')"
proof -
  have len: "length (array (queue h)) = 64" and t: "t < 64"
    and hd: "head_index (queue h) = of_nat (slot_of t 64)"
    using assms(1) by (simp_all add: seq_inv_def)
  have s: "slot_of t 64 = t" using t by (simp add: slot_of_def)
  have i: "unat (head_index (queue h) AND 63) = t" unfolding hd s using t by (rule head_idx)
  have v: "valid (array (queue h) ! t) = 1"
    using assms(1) t by (simp add: seq_inv_def occupied_tail)
  let ?h1 = "h\<lparr>queue := (queue h)\<lparr>write_length := Increment (write_length (queue h))\<rparr>\<rparr>"
  let ?q1 = "(queue ?h1)\<lparr>head_index := (head_index (queue ?h1) + 1) AND 63,
               array := (array (queue ?h1))[t := ticketed (array (queue ?h1) ! t)]\<rparr>"
  have loop: "write_wait_loop [] t (low_half (write_waiters (array (queue ?h1) ! t)) AND 0x7FFF) ?q1 (futex_calls ?h1)
                = Inr (?q1, futex_calls ?h1)"
    using assms(2) t by (simp add: len ticketed_def)
  have pub: "publish (?h1\<lparr>queue := ?q1, futex_calls := futex_calls ?h1\<rparr>) t x
               = Inl (AssertionFailed ''Attempt to overwrite existing space!'')"
    using t v by (simp add: publish_eq len ticketed_def)
  have i1: "unat (head_index (queue ?h1) AND 63) = t" using i by simp
  have l1: "\<not> length (array (queue ?h1)) \<le> t" using t by (simp add: len)
  show ?thesis
    unfolding EnqueueBlocking_def DoEnqueue_split i1
    using l1 by (simp only: if_False if_True loop pub sum.case prod.case)
qed

lemma tickets_cong:
  "tickets h a b \<Longrightarrow> (\<And>i. i < 64 \<Longrightarrow> a i = a' i) \<Longrightarrow> (\<And>i. i < 64 \<Longrightarrow> b i = b' i) \<Longrightarrow> tickets h a' b'"
  by (simp add: tickets_def)

lemma one_round:
  assumes "seq_inv h 0 0" "tickets h (upto_round r 0) (upto_round r 0)"
  shows "\<exists>rs h'. run h round_calls = Inr (rs, h') \<and> seq_inv h' 0 0 \<and>
           tickets h' (upto_round (Suc r) 0) (upto_round (Suc r) 0)"
proof -
  from fill[OF assms, of 64 item4] obtain rs1 h1 where
    1: "run h (replicate 64 (CallEnqueue item4)) = Inr (rs1, h1)" "seq_inv h1 0 64"
       "tickets h1 (upto_round r 64) (upto_round r 0)" by auto
  have s1: "seq_inv h1 (slot_of 0 0) (64 - 0)" using 1(2) by (simp add: slot_of_def)
  have t1: "tickets h1 (upto_round (Suc r) 0) (upto_round r 0)"
    using 1(3) by (rule tickets_cong) (simp_all add: upto_round_def)
  from drain[OF s1 t1, of 64 "out_object 4"] obtain rs2 h2 where
    2: "run h1 (replicate 64 (CallDequeueNext (out_object 4))) = Inr (rs2, h2)"
       "seq_inv h2 (slot_of 0 64) 0" "tickets h2 (upto_round (Suc r) 0) (upto_round r 64)" by auto
  have s2: "seq_inv h2 0 0" using 2(2) by (simp add: slot_of_def)
  have t2: "tickets h2 (upto_round (Suc r) 0) (upto_round (Suc r) 0)"
    using 2(3) by (rule tickets_cong) (simp_all add: upto_round_def)
  show ?thesis
    unfolding round_calls_def run_append using 1(1) 2(1) s2 t2 by simp
qed

lemma many_rounds:
  "seq_inv h 0 0 \<Longrightarrow> tickets h (upto_round r 0) (upto_round r 0) \<Longrightarrow>
   \<exists>rs h'. run h (concat (replicate m round_calls)) = Inr (rs, h') \<and> seq_inv h' 0 0 \<and>
           tickets h' (upto_round (r + m) 0) (upto_round (r + m) 0)"
proof (induction m arbitrary: h r)
  case 0
  then show ?case by simp
next
  case (Suc m)
  from one_round[OF Suc.prems] obtain rs1 h1 where
    1: "run h round_calls = Inr (rs1, h1)" "seq_inv h1 0 0"
       "tickets h1 (upto_round (Suc r) 0) (upto_round (Suc r) 0)" by auto
  from Suc.IH[OF 1(2,3)] obtain rs2 h2 where
    2: "run h1 (concat (replicate m round_calls)) = Inr (rs2, h2)" "seq_inv h2 0 0"
       "tickets h2 (upto_round (Suc r + m) 0) (upto_round (Suc r + m) 0)" by auto
  show ?case
    using 1(1) 2 by (simp add: run_append)
qed

lemma fresh_tickets: "length (array mem) = 64 \<Longrightarrow> tickets (fresh mem) (upto_round 0 0) (upto_round 0 0)"
  by (simp add: tickets_def fresh_sel zeroed_def upto_round_def low_half_def high_half_def)

text \<open>
  Claim C5. At the publish step a previous \<^verbatim>\<open>valid\<close> of 1 fails the assertion and a
  previous 2 makes one \<^verbatim>\<open>FutexWake\<close> on the slot's \<^verbatim>\<open>valid\<close> (lemma \<open>publish_eq\<close>).
  But the failing branch can be reached by one thread that is the only producer and the
  only consumer: fill and drain the queue 32766 times, fill it once more, and call
  \<^verbatim>\<open>EnqueueBlocking\<close>. The slot at the head holds an unread element, its taken counter
  is at 32767 and its woken counter at 32766; the ticket is 32767, the counter becomes
  \<open>0x8000\<close>, the inversion flag is set, \<open>32766 > 32767\<close> is false, the writer does not wait,
  and the exchange finds \<^verbatim>\<open>valid = 1\<close>.
\<close>

theorem blocking_enqueue_overwrites_after_wrap:
  "MpscQueue_new (Some (pool_block 4)) = Inr (fresh (pool_block 4)) \<and>
   run (fresh (pool_block 4))
     (concat (replicate 32766 round_calls) @ replicate 64 (CallEnqueue item4) @
      [CallEnqueueBlocking [] item4])
   = Inl (AssertionFailed ''Attempt to overwrite existing space!'')"
proof -
  have len: "length (array (pool_block 4)) = 64" by (rule pool_block_length)
  from many_rounds[OF fresh_inv[OF len] fresh_tickets[OF len], of 32766] obtain rs1 h1 where
    1: "run (fresh (pool_block 4)) (concat (replicate 32766 round_calls)) = Inr (rs1, h1)"
       "seq_inv h1 0 0" "tickets h1 (upto_round 32766 0) (upto_round 32766 0)" by auto
  from fill[OF 1(2,3), of 64 item4] obtain rs2 h2 where
    2: "run h1 (replicate 64 (CallEnqueue item4)) = Inr (rs2, h2)" "seq_inv h2 0 64"
       "tickets h2 (upto_round 32766 64) (upto_round 32766 0)" by auto
  have lo: "low_half (write_waiters (array (queue h2) ! 0)) = 32767"
    and hi: "high_half (write_waiters (array (queue h2) ! 0)) = 32766"
    using 2(3) by (simp_all add: tickets_def upto_round_def)
  have "\<not> keeps_waiting (set_low_half (write_waiters (array (queue h2) ! 0))
                            (low_half (write_waiters (array (queue h2) ! 0)) + 1))
                          (low_half (write_waiters (array (queue h2) ! 0)) AND 0x7FFF)"
    unfolding keeps_waiting_halves low_half_set_low_half high_half_set_low_half lo hi
    by (simp add: bit_iff_odd_drop_bit)
  from EnqueueBlocking_full[OF 2(2) this, of item4]
  have 3: "run h2 [CallEnqueueBlocking [] item4] = Inl (AssertionFailed ''Attempt to overwrite existing space!'')"
    by simp
  show ?thesis
    using MpscQueue_new_fresh[OF len] 1(1) 2(1) 3 by (simp add: run_append)
qed

section \<open>The byte images that come back\<close>

lemma copy_bytes_eq:
  "p + k \<le> length src \<Longrightarrow> length dest = length src \<Longrightarrow>
   copy_bytes dest src p k = take p dest @ take k (drop p src) @ drop (p + k) dest"
proof (induction k arbitrary: dest p)
  case 0
  then show ?case by simp
next
  case (Suc k)
  have p: "p < length src" "p < length dest" using Suc.prems by simp_all
  have "copy_bytes dest src p (Suc k) = copy_bytes (dest[p := src ! p]) src (Suc p) k" by simp
  also have "\<dots> = take (Suc p) (dest[p := src ! p]) @ take k (drop (Suc p) src) @
                   drop (Suc p + k) (dest[p := src ! p])"
    using Suc.prems by (intro Suc.IH) simp_all
  also have "take (Suc p) (dest[p := src ! p]) = take p dest @ [src ! p]"
    using p by (simp add: take_Suc_conv_app_nth)
  also have "drop (Suc p + k) (dest[p := src ! p]) = drop (p + Suc k) dest"
    by simp
  also have "(take p dest @ [src ! p]) @ take k (drop (Suc p) src) @ drop (p + Suc k) dest =
             take p dest @ take (Suc k) (drop p src) @ drop (p + Suc k) dest"
    using p by (simp add: Cons_nth_drop_Suc[symmetric])
  finally show ?case .
qed

lemma copy_uint64_eq:
  "p + 8 \<le> length src \<Longrightarrow> length dest = length src \<Longrightarrow>
   length (copy_uint64 dest src p) = length src"
  by (simp add: copy_uint64_def)

lemma copy_longs_eq:
  "p + l \<le> length src \<Longrightarrow> length dest = length src \<Longrightarrow>
   copy_longs dest src p l =
     (take p dest @ take (l - l mod 8) (drop p src) @ drop (p + (l - l mod 8)) dest, l mod 8)"
proof (induction dest src p l rule: copy_longs.induct)
  case (1 dest src p len)
  show ?case
  proof (cases "8 \<le> len")
    case False
    then show ?thesis by (subst copy_longs.simps) simp
  next
    case True
    let ?d = "copy_uint64 dest src p"
    have ld: "length ?d = length src" using 1(2,3) True by (simp add: copy_uint64_def)
    have m: "(len - 8) mod 8 = len mod 8"
      using True by (simp add: le_mod_geq)
    have "(len - 8) mod 8 \<le> len - 8" by (rule mod_less_eq_dividend)
    then have rl: "len mod 8 \<le> len - 8" unfolding m .
    have r: "len - 8 - len mod 8 + 8 = len - len mod 8"
      using True rl by arith
    have "copy_longs dest src p len = copy_longs ?d src (p + 8) (len - 8)"
      using True by (subst copy_longs.simps) simp
    also have "\<dots> = (take (p + 8) ?d @ take (len - 8 - (len - 8) mod 8) (drop (p + 8) src) @
                       drop (p + 8 + (len - 8 - (len - 8) mod 8)) ?d, (len - 8) mod 8)"
      using 1(2) True ld by (intro 1(1)) simp_all
    also have "take (p + 8) ?d = take p dest @ take 8 (drop p src)"
      using 1(2,3) True by (simp add: copy_uint64_def)
    also have "drop (p + 8 + (len - 8 - (len - 8) mod 8)) ?d = drop (p + (len - len mod 8)) dest"
      using 1(2,3) True r by (simp add: copy_uint64_def m add.commute add.left_commute)
    also have "(take p dest @ take 8 (drop p src)) @ take (len - 8 - (len - 8) mod 8) (drop (p + 8) src) @
                 drop (p + (len - len mod 8)) dest =
               take p dest @ take (len - len mod 8) (drop p src) @ drop (p + (len - len mod 8)) dest"
    proof -
      have "take 8 (drop p src) @ take (len - 8 - len mod 8) (drop (p + 8) src) =
            take (8 + (len - 8 - len mod 8)) (drop p src)"
        by (simp add: take_add add.commute)
      then show ?thesis using r by (simp add: m add.commute)
    qed
    finally show ?thesis by (simp add: m)
  qed
qed

text \<open>
  What \<^verbatim>\<open>VolatileCopy\<close> leaves in the destination. When both addresses are multiples
  of four and there are eight bytes or more, the bytes past the last multiple of eight
  are those the destination held before: the byte loop starts again at offset 0.
\<close>

lemma VolatileCopy_eq:
  assumes "length dest = length src"
  shows "VolatileCopy dest_int src_int dest src (length src) =
     (if dest_int AND 0x3 = 0 \<and> src_int AND 0x3 = 0 \<and> 8 \<le> length src
      then take (length src - length src mod 8) src @ drop (length src - length src mod 8) dest
      else src)"
proof -
  let ?n = "length src"
  let ?r = "?n mod 8"
  let ?m = "?n - ?r"
  have bytes_all: "copy_bytes dest src 0 ?n = src"
    using copy_bytes_eq[of 0 ?n src dest] assms by simp
  show ?thesis
  proof (cases "dest_int AND 0x3 = 0 \<and> src_int AND 0x3 = 0")
    case False
    then show ?thesis using bytes_all by (auto simp add: VolatileCopy_def)
  next
    case True
    have longs: "copy_longs dest src 0 ?n = (take ?m src @ drop ?m dest, ?r)"
      using copy_longs_eq[of 0 ?n src dest] assms by simp
    let ?d1 = "take ?m src @ drop ?m dest"
    have vc: "VolatileCopy dest_int src_int dest src ?n = copy_bytes ?d1 src 0 ?r"
      using True longs by (simp add: VolatileCopy_def)
    have l1: "length ?d1 = ?n" using assms by simp
    have tail: "copy_bytes ?d1 src 0 ?r = take ?r src @ drop ?r ?d1"
      using copy_bytes_eq[of 0 ?r src ?d1] l1 by simp
    show ?thesis
    proof (cases "8 \<le> ?n")
      case False
      then have "?r = ?n" by simp
      then show ?thesis using vc tail assms False by simp
    next
      case ge: True
      have "(?n - 8) mod 8 = ?r" using ge by (simp add: le_mod_geq)
      moreover have "(?n - 8) mod 8 \<le> ?n - 8" by (rule mod_less_eq_dividend)
      ultimately have rm: "?r \<le> ?m" using ge by arith
      have "take ?r src = take ?r (take ?m src)" using rm by (simp add: min_def)
      moreover have "drop ?r ?d1 = drop ?r (take ?m src) @ drop ?m dest"
        using rm by simp
      ultimately have "take ?r src @ drop ?r ?d1 = ?d1"
        by (simp only: append_assoc[symmetric] append_take_drop_id)
      then show ?thesis using vc tail True ge by simp
    qed
  qed
qed

lemma VolatileCopy_exact:
  assumes "length dest = length src" "length src mod 8 = 0 \<or> length src < 8"
  shows "VolatileCopy dest_int src_int dest src (length src) = src"
  using assms by (auto simp add: VolatileCopy_eq)

lemma Enqueue_val:
  assumes "seq_inv h t n" "n < 64" "j < 64"
  shows "val (array (queue (enq_state (h\<lparr>queue := (queue h)\<lparr>write_length := w\<rparr>\<rparr>) (slot_of t n) x)) ! j) =
         (if j = slot_of t n then copied (array (queue h) ! j) x else val (array (queue h) ! j))"
proof -
  have len: "length (array (queue h)) = 64" and t: "t < 64"
    using assms(1) by (simp_all add: seq_inv_def)
  have s: "slot_of t n < 64" using t assms(2) by (simp add: slot_of_less)
  show ?thesis using s assms(3) by (simp add: enq_state_sel len nth_list_update enq_node_sel)
qed

lemma Dequeue_val:
  assumes "seq_inv h t n" "j < 64"
  shows "val (array (queue (deq_state h t)) ! j) = val (array (queue h) ! j)"
proof -
  have len: "length (array (queue h)) = 64" and t: "t < 64"
    using assms(1) by (simp_all add: seq_inv_def)
  show ?thesis using t assms(2) by (simp add: deq_state_sel len nth_list_update deq_node_sel)
qed

lemma copied_bytes:
  "bytes (copied nd x) =
     VolatileCopy (addr (val nd)) (addr x) (bytes (val nd)) (bytes x) (length (bytes x))"
  by (simp add: copied_def)

lemma Enqueue_contents:
  assumes "seq_inv h t n" "n < 64"
  shows "contents (enq_state (h\<lparr>queue := (queue h)\<lparr>write_length := w\<rparr>\<rparr>) (slot_of t n) x) t (Suc n) =
         contents h t n @ [bytes (copied (array (queue h) ! slot_of t n) x)]"
proof -
  have t: "t < 64" using assms(1) by (simp add: seq_inv_def)
  have s: "slot_of t n < 64" using t assms(2) by (simp add: slot_of_less)
  have "\<And>k. k < n \<Longrightarrow> slot_of t k < 64 \<and> slot_of t k \<noteq> slot_of t n"
    using t assms(2) slot_of_inj[of t _ n] by (simp add: slot_of_less)
  then show ?thesis
    unfolding contents_def using s by (simp add: Enqueue_val[OF assms])
qed

lemma Dequeue_contents:
  assumes "seq_inv h t n" "0 < n"
  shows "contents h t n = bytes (val (array (queue h) ! t)) # contents (deq_state h t) (slot_of t 1) (n - 1)"
proof -
  have t: "t < 64" and n: "n \<le> 64" using assms(1) by (simp_all add: seq_inv_def)
  obtain m where m: "n = Suc m" using assms(2) by (cases n) simp_all
  have k: "\<And>k. k < m \<Longrightarrow> slot_of (slot_of t 1) k = slot_of t (Suc k) \<and> slot_of t (Suc k) < 64"
    using t n m by (auto simp add: slot_of_def)
  have "[0..<Suc m] = 0 # map Suc [0..<m]"
    by (metis map_Suc_upt upt_conv_Cons zero_less_Suc)
  then have "contents h t n = bytes (val (array (queue h) ! slot_of t 0)) #
                map (\<lambda>k. bytes (val (array (queue h) ! slot_of t (Suc k)))) [0..<m]"
    unfolding contents_def m by (simp add: comp_def)
  also have "map (\<lambda>k. bytes (val (array (queue h) ! slot_of t (Suc k)))) [0..<m] =
             contents (deq_state h t) (slot_of t 1) (n - 1)"
    unfolding contents_def m using k by (simp add: Dequeue_val[OF assms(1)])
  finally show ?thesis using t by (simp add: slot_of_0)
qed

lemma contents_length: "length (contents h t n) = n"
  by (simp add: contents_def)

text \<open>
  For elements whose size is a multiple of eight, or below eight, the calls of one thread
  return what the bounded queue of byte images returns: first in, first out, across any
  number of wraps of the indices.
\<close>

lemma fifo_refinement:
  assumes "seq_inv h t n" "slot_sizes sz h" "sz mod 8 = 0 \<or> sz < 8"
    and "\<forall>c\<in>set calls. nonblocking_of_size sz c"
  shows "map_sum id fst (run h calls) = Inr (fifo_replies (contents h t n) calls)"
  using assms(1,2,4)
proof (induction calls arbitrary: h t n)
  case Nil
  then show ?case by simp
next
  case (Cons c cs)
  have t: "t < 64" and n: "n \<le> 64" using Cons.prems(1) by (simp_all add: seq_inv_def)
  have cs: "\<forall>c\<in>set cs. nonblocking_of_size sz c" using Cons.prems(3) by simp
  show ?case
  proof (cases c)
    case (CallEnqueue x)
    then have x: "length (bytes x) = sz" using Cons.prems(3) by simp
    show ?thesis
    proof (cases "n < 64")
      case True
      let ?h1 = "enq_state (h\<lparr>queue := (queue h)\<lparr>write_length := of_nat (Suc n)\<rparr>\<rparr>) (slot_of t n) x"
      have s: "slot_of t n < 64" using t True by (simp add: slot_of_less)
      have e: "Enqueue h x = Inr (True, ?h1)" using Enqueue_state[OF Cons.prems(1) True] .
      have i: "seq_inv ?h1 t (Suc n)" using Enqueue_inv[OF Cons.prems(1) True] .
      have ex: "bytes (copied (array (queue h) ! slot_of t n) x) = bytes x"
        unfolding copied_bytes
        using VolatileCopy_exact[of "bytes (val (array (queue h) ! slot_of t n))" "bytes x"]
          Cons.prems(2) s x assms(3) by (simp add: slot_sizes_def)
      have sz: "slot_sizes sz ?h1"
        unfolding slot_sizes_def using Cons.prems(2) ex x
        by (simp add: Enqueue_val[OF Cons.prems(1) True] slot_sizes_def)
      have c1: "contents ?h1 t (Suc n) = contents h t n @ [bytes x]"
        using Enqueue_contents[OF Cons.prems(1) True] ex by simp
      from Cons.IH[OF i sz cs] e c1 True CallEnqueue show ?thesis
        by (auto simp add: contents_length split: sum.splits)
    next
      case False
      then have n64: "n = 64" using n by simp
      have e: "Enqueue h x = Inr (False, h)" using Enqueue_full Cons.prems(1) n64 by simp
      from Cons.IH[OF Cons.prems(1,2) cs] e n64 CallEnqueue show ?thesis
        by (auto simp add: contents_length split: sum.splits)
    qed
  next
    case (CallDequeueNext item)
    show ?thesis
    proof (cases "0 < n")
      case True
      have e: "DequeueNext h item = Inr (True, deq_state h t, item\<lparr>bytes := bytes (val (array (queue h) ! t))\<rparr>)"
        using Dequeue_state[OF Cons.prems(1) True] .
      have i: "seq_inv (deq_state h t) (slot_of t 1) (n - 1)" using Dequeue_inv[OF Cons.prems(1) True] .
      have sz: "slot_sizes sz (deq_state h t)"
        using Cons.prems(2) by (simp add: slot_sizes_def Dequeue_val[OF Cons.prems(1)])
      note c1 = Dequeue_contents[OF Cons.prems(1) True]
      from Cons.IH[OF i sz cs] e CallDequeueNext show ?thesis
        by (subst c1) (auto split: sum.splits)
    next
      case False
      then have n0: "n = 0" by simp
      have e: "DequeueNext h item = Inr (False, h, item)" using Dequeue_none Cons.prems(1) n0 by simp
      from Cons.IH[OF Cons.prems(1,2) cs] e n0 CallDequeueNext show ?thesis
        by (auto simp add: contents_def split: sum.splits)
    qed
  next
    case (CallEnqueueBlocking es x)
    then show ?thesis using Cons.prems(3) by simp
  next
    case (CallDequeueNextBlocking es item)
    then show ?thesis using Cons.prems(3) by simp
  qed
qed

lemma fifo_from_new:
  assumes "length (array mem) = 64" "\<forall>nd\<in>set (array mem). length (bytes (val nd)) = sz"
    and "sz mod 8 = 0 \<or> sz < 8" "\<forall>c\<in>set calls. nonblocking_of_size sz c"
  shows "map_sum id fst (run (fresh mem) calls) = Inr (fifo_replies [] calls)"
proof -
  have "slot_sizes sz (fresh mem)"
    using assms(1,2) by (simp add: slot_sizes_def fresh_sel zeroed_def)
  from fifo_refinement[OF fresh_inv[OF assms(1)] this assms(3,4)]
  show ?thesis by (simp add: contents_def)
qed

lemma enqueue_then_dequeue:
  assumes "seq_inv h t 0"
  shows "map_sum id fst (run h [CallEnqueue x, CallDequeueNext item]) =
         Inr [EnqueueReturned True,
              DequeueNextReturned True (item\<lparr>bytes := bytes (copied (array (queue h) ! t) x)\<rparr>)]"
proof -
  have t: "t < 64" using assms by (simp add: seq_inv_def)
  let ?h1 = "enq_state (h\<lparr>queue := (queue h)\<lparr>write_length := of_nat (Suc 0)\<rparr>\<rparr>) (slot_of t 0) x"
  have e: "Enqueue h x = Inr (True, ?h1)" using Enqueue_state[OF assms, of x] by simp
  have i: "seq_inv ?h1 t (Suc 0)" using Enqueue_inv[OF assms, of x] by simp
  have d: "DequeueNext ?h1 item = Inr (True, deq_state ?h1 t, item\<lparr>bytes := bytes (val (array (queue ?h1) ! t))\<rparr>)"
    using Dequeue_state[OF i] by simp
  have v: "val (array (queue ?h1) ! t) = copied (array (queue h) ! t) x"
    using Enqueue_val[OF assms _ t, of "of_nat (Suc 0)" x] t by (simp add: slot_of_0)
  show ?thesis using e d v by simp
qed

lemma two_in_two_out:
  assumes "seq_inv h 0 0"
  shows "map_sum id fst (run h [CallEnqueue a, CallEnqueue b, CallDequeueNext o1, CallDequeueNext o2]) =
         Inr [EnqueueReturned True, EnqueueReturned True,
              DequeueNextReturned True (o1\<lparr>bytes := bytes (copied (array (queue h) ! 0) a)\<rparr>),
              DequeueNextReturned True (o2\<lparr>bytes := bytes (copied (array (queue h) ! 1) b)\<rparr>)]"
proof -
  let ?h1 = "enq_state (h\<lparr>queue := (queue h)\<lparr>write_length := of_nat (Suc 0)\<rparr>\<rparr>) (slot_of 0 0) a"
  have e1: "Enqueue h a = Inr (True, ?h1)" using Enqueue_state[OF assms, of a] by simp
  have i1: "seq_inv ?h1 0 (Suc 0)" using Enqueue_inv[OF assms, of a] by simp
  let ?h2 = "enq_state (?h1\<lparr>queue := (queue ?h1)\<lparr>write_length := of_nat (Suc (Suc 0))\<rparr>\<rparr>) (slot_of 0 (Suc 0)) b"
  have e2: "Enqueue ?h1 b = Inr (True, ?h2)" using Enqueue_state[OF i1, of b] by simp
  have i2: "seq_inv ?h2 0 (Suc (Suc 0))" using Enqueue_inv[OF i1, of b] by simp
  have d1: "DequeueNext ?h2 o1 = Inr (True, deq_state ?h2 0, o1\<lparr>bytes := bytes (val (array (queue ?h2) ! 0))\<rparr>)"
    using Dequeue_state[OF i2] by simp
  have i3: "seq_inv (deq_state ?h2 0) (slot_of 0 1) (Suc 0)" using Dequeue_inv[OF i2] by simp
  have s1: "slot_of 0 1 = 1" "slot_of 0 (Suc 0) = 1" "slot_of 0 0 = 0" by (simp_all add: slot_of_def)
  have d2: "DequeueNext (deq_state ?h2 0) o2 =
      Inr (True, deq_state (deq_state ?h2 0) 1, o2\<lparr>bytes := bytes (val (array (queue (deq_state ?h2 0)) ! 1))\<rparr>)"
    using Dequeue_state[OF i3, of o2] by (simp add: s1)
  have v0: "val (array (queue ?h2) ! 0) = copied (array (queue h) ! 0) a"
    using Enqueue_val[OF i1, of 0 _ b] Enqueue_val[OF assms, of 0 _ a] by (simp add: s1)
  have v1: "val (array (queue (deq_state ?h2 0)) ! 1) = copied (array (queue h) ! 1) b"
    using Dequeue_val[OF i2, of 1] Enqueue_val[OF i1, of 1 _ b] Enqueue_val[OF assms, of 1 _ a]
    by (simp add: s1 copied_def)
  show ?thesis using e1 e2 d1 d2 v0 v1 by simp
qed

lemma pool_block_slot:
  "i < 64 \<Longrightarrow> val (array (queue (fresh (pool_block sz))) ! i) =
     \<lparr>addr = 0x1000 + of_nat (i * (sz + 8)), bytes = replicate sz 0\<rparr>"
  by (simp add: fresh_sel pool_block_def zeroed_def)

lemma twelve_zeros: "replicate 12 (0::byte) = [0, 0, 0, 0, 0, 0, 0, 0, 0, 0, 0, 0]"
  by (simp add: numeral_eq_Suc)

lemma VolatileCopy_12:
  assumes "length src = 12" "length dest = 12" "dest_int AND 0x3 = 0" "src_int AND 0x3 = 0"
  shows "VolatileCopy dest_int src_int dest src 12 = take 8 src @ drop 8 dest"
proof -
  have "VolatileCopy dest_int src_int dest src (length src) =
      take (length src - length src mod 8) src @ drop (length src - length src mod 8) dest"
    using assms by (subst VolatileCopy_eq) simp_all
  then show ?thesis unfolding assms(1) by simp
qed

lemma stored12:
  "bytes (copied (array (queue (fresh (pool_block 12))) ! 0) item12) = [1, 2, 3, 4, 5, 6, 7, 8, 0, 0, 0, 0]"
proof -
  have v: "val (array (queue (fresh (pool_block 12))) ! 0) = \<lparr>addr = 0x1000, bytes = replicate 12 0\<rparr>"
    using pool_block_slot[of 0 12] by simp
  have l: "length (bytes item12) = 12" by (simp add: item12_def)
  have "bytes (copied (array (queue (fresh (pool_block 12))) ! 0) item12) =
        VolatileCopy 0x1000 (addr item12) (replicate 12 0) (bytes item12) 12"
    unfolding copied_bytes v l by simp
  also have "\<dots> = take 8 (bytes item12) @ drop 8 (replicate 12 0)"
    by (rule VolatileCopy_12) (simp_all add: item12_def)
  also have "\<dots> = [1, 2, 3, 4, 5, 6, 7, 8, 0, 0, 0, 0]"
    unfolding twelve_zeros by (simp add: item12_def)
  finally show ?thesis .
qed

lemma stored12b:
  "bytes (copied (array (queue (fresh (pool_block 12))) ! 1) item12b) = [21, 22, 23, 24, 25, 26, 27, 28, 0, 0, 0, 0]"
proof -
  have v: "val (array (queue (fresh (pool_block 12))) ! 1) = \<lparr>addr = 0x1014, bytes = replicate 12 0\<rparr>"
    using pool_block_slot[of 1 12] by simp
  have l: "length (bytes item12b) = 12" by (simp add: item12b_def)
  have "bytes (copied (array (queue (fresh (pool_block 12))) ! 1) item12b) =
        VolatileCopy 0x1014 (addr item12b) (replicate 12 0) (bytes item12b) 12"
    unfolding copied_bytes v l by simp
  also have "\<dots> = take 8 (bytes item12b) @ drop 8 (replicate 12 0)"
    by (rule VolatileCopy_12) (simp_all add: item12b_def)
  also have "\<dots> = [21, 22, 23, 24, 25, 26, 27, 28, 0, 0, 0, 0]"
    unfolding twelve_zeros by (simp add: item12b_def)
  finally show ?thesis .
qed

text \<open>
  Claim C3. The claim has \<^verbatim>\<open>Enqueue(x)\<close> then \<^verbatim>\<open>DequeueNext(&y)\<close> return the byte image
  of \<open>x\<close> for every size of element. For an element of twelve bytes at an address that
  is a multiple of four, on a queue just made whose slots hold zero bytes,
  \<^verbatim>\<open>VolatileCopy\<close> copies the first eight bytes with the 64-bit loop and then the first
  four again with the byte loop; bytes 8 to 11 of the slot stay zero, and they are what
  the dequeue returns.
\<close>

theorem twelve_byte_image_not_returned:
  "MpscQueue_new (Some (pool_block 12)) = Inr (fresh (pool_block 12)) \<and>
   VolatileCopy 0x1000 0x2000 (replicate 12 0) [1, 2, 3, 4, 5, 6, 7, 8, 9, 10, 11, 12] 12 =
     [1, 2, 3, 4, 5, 6, 7, 8, 0, 0, 0, 0] \<and>
   map_sum id fst (run (fresh (pool_block 12)) [CallEnqueue item12, CallDequeueNext (out_object 12)]) =
     Inr [EnqueueReturned True,
          DequeueNextReturned True \<lparr>addr = 0x3000, bytes = [1, 2, 3, 4, 5, 6, 7, 8, 0, 0, 0, 0]\<rparr>] \<and>
   bytes item12 = [1, 2, 3, 4, 5, 6, 7, 8, 9, 10, 11, 12]"
proof -
  have len: "length (array (pool_block 12)) = 64" by (rule pool_block_length)
  have "VolatileCopy 0x1000 0x2000 (replicate 12 0) [1, 2, 3, 4, 5, 6, 7, 8, 9, 10, 11, 12] 12 =
     take 8 [1, 2, 3, 4, 5, 6, 7, 8, 9, 10, 11, 12] @ drop 8 (replicate 12 0)"
    by (rule VolatileCopy_12) simp_all
  then have vc: "VolatileCopy 0x1000 0x2000 (replicate 12 0) [1, 2, 3, 4, 5, 6, 7, 8, 9, 10, 11, 12] 12 =
     [1, 2, 3, 4, 5, 6, 7, 8, 0, 0, 0, 0]"
    unfolding twelve_zeros by simp
  have rt: "map_sum id fst (run (fresh (pool_block 12)) [CallEnqueue item12, CallDequeueNext (out_object 12)]) =
     Inr [EnqueueReturned True,
          DequeueNextReturned True \<lparr>addr = 0x3000, bytes = [1, 2, 3, 4, 5, 6, 7, 8, 0, 0, 0, 0]\<rparr>]"
    unfolding enqueue_then_dequeue[OF fresh_inv[OF len]] stored12
    by (simp add: out_object_def)
  have b: "bytes item12 = [1, 2, 3, 4, 5, 6, 7, 8, 9, 10, 11, 12]" by (simp add: item12_def)
  from MpscQueue_new_fresh[OF len] vc rt b show ?thesis by blast
qed

text \<open>
  Claim C1. The claim has the successful dequeues return exactly the values enqueued, in
  order. The order holds (lemma \<open>fifo_refinement\<close>, for sizes that \<^verbatim>\<open>VolatileCopy\<close>
  copies whole), the values do not: two elements of twelve bytes enqueued and dequeued by
  one thread come back in order, each with its last four bytes replaced by what the slot
  held.
\<close>

theorem two_twelve_byte_items_altered:
  "map_sum id fst (run (fresh (pool_block 12))
      [CallEnqueue item12, CallEnqueue item12b,
       CallDequeueNext (out_object 12), CallDequeueNext (out_object 12)]) =
     Inr [EnqueueReturned True, EnqueueReturned True,
          DequeueNextReturned True \<lparr>addr = 0x3000, bytes = [1, 2, 3, 4, 5, 6, 7, 8, 0, 0, 0, 0]\<rparr>,
          DequeueNextReturned True \<lparr>addr = 0x3000, bytes = [21, 22, 23, 24, 25, 26, 27, 28, 0, 0, 0, 0]\<rparr>] \<and>
   bytes item12 = [1, 2, 3, 4, 5, 6, 7, 8, 9, 10, 11, 12] \<and>
   bytes item12b = [21, 22, 23, 24, 25, 26, 27, 28, 29, 30, 31, 32]"
proof -
  have len: "length (array (pool_block 12)) = 64" by (rule pool_block_length)
  have rt: "map_sum id fst (run (fresh (pool_block 12))
      [CallEnqueue item12, CallEnqueue item12b,
       CallDequeueNext (out_object 12), CallDequeueNext (out_object 12)]) =
     Inr [EnqueueReturned True, EnqueueReturned True,
          DequeueNextReturned True \<lparr>addr = 0x3000, bytes = [1, 2, 3, 4, 5, 6, 7, 8, 0, 0, 0, 0]\<rparr>,
          DequeueNextReturned True \<lparr>addr = 0x3000, bytes = [21, 22, 23, 24, 25, 26, 27, 28, 0, 0, 0, 0]\<rparr>]"
    unfolding two_in_two_out[OF fresh_inv[OF len]] stored12 stored12b
    by (simp add: out_object_def)
  have b: "bytes item12 = [1, 2, 3, 4, 5, 6, 7, 8, 9, 10, 11, 12]"
    "bytes item12b = [21, 22, 23, 24, 25, 26, 27, 28, 29, 30, 31, 32]"
    by (simp_all add: item12_def item12b_def)
  from rt b show ?thesis by blast
qed

section \<open>A parked reader and a producer\<close>

lemma Enqueue_array:
  assumes "Enqueue h x = Inr (b, h')"
  shows "array (queue h') = array (queue h) \<or>
         (\<exists>k nd. array (queue h') = (array (queue h))[k := nd] \<and> valid nd = 1)"
proof (cases "fst (Reserve h)")
  case False
  with assms show ?thesis unfolding Enqueue_split by (auto simp add: Reserve_frame)
next
  case True
  let ?h1 = "snd (Reserve h)"
  let ?i = "unat (head_index (queue ?h1) AND 63)"
  from True assms have "DoEnqueue [] ?h1 x False = Inr h'"
    unfolding Enqueue_split by (auto split: sum.splits)
  then have pub: "publish (?h1\<lparr>queue := (queue ?h1)\<lparr>head_index := (head_index (queue ?h1) + 1) AND 63,
        array := (array (queue ?h1))[?i := ticketed (array (queue ?h1) ! ?i)]\<rparr>\<rparr>) ?i x = Inr h'"
    unfolding DoEnqueue_split by (auto split: if_splits)
  from publish_array[OF pub] obtain v where
    A: "array (queue h') = (array (queue h))[?i :=
        ((array (queue h))[?i := ticketed (array (queue h) ! ?i)] ! ?i)\<lparr>val := v, valid := 1\<rparr>]"
    by (auto simp add: Reserve_frame)
  have "valid (((array (queue h))[?i := ticketed (array (queue h) ! ?i)] ! ?i)\<lparr>val := v, valid := 1\<rparr>) = 1"
    by simp
  with A show ?thesis by blast
qed

lemma other_enqueues_valid_ok: "valid_ok q \<Longrightarrow> valid_ok (other_enqueues x q)"
  unfolding other_enqueues_def
  using Enqueue_valid_ok[of "\<lparr>queue = q, tail_index = 0, futex_calls = []\<rparr>" x]
  by (auto split: sum.splits)

lemma other_enqueues_slots: "slots n q \<Longrightarrow> slots n (other_enqueues x q)"
  unfolding other_enqueues_def slots_def
  using Enqueue_array[of "\<lparr>queue = q, tail_index = 0, futex_calls = []\<rparr>" x]
  by (auto split: sum.splits)

lemma other_enqueues_others_quiescent:
  assumes "others_quiescent i q"
  shows "others_quiescent i (other_enqueues x q)"
proof (cases "Enqueue \<lparr>queue = q, tail_index = 0, futex_calls = []\<rparr> x")
  case (Inl e)
  with assms show ?thesis by (simp add: other_enqueues_def)
next
  case (Inr p)
  obtain b h where p: "p = (b, h)" by (cases p)
  from Enqueue_array[of "\<lparr>queue = q, tail_index = 0, futex_calls = []\<rparr>" x b h] Inr p
  consider "array (queue h) = array q" | k nd where "array (queue h) = (array q)[k := nd]" "valid nd = 1"
    by auto
  then have "others_quiescent i (queue h)"
  proof cases
    case 1
    with assms show ?thesis by (simp add: others_quiescent_def)
  next
    case 2
    have "valid ((array q)[k := nd] ! j) = 0 \<or> valid ((array q)[k := nd] ! j) = 1"
      if "j < length (array q)" "j \<noteq> i" for j
      using that assms 2(2) by (cases "j = k") (simp_all add: others_quiescent_def)
    with 2(1) show ?thesis by (simp add: others_quiescent_def)
  qed
  with Inr p show ?thesis by (simp add: other_enqueues_def)
qed

lemma env_keeps_single: "(\<And>q. P q \<Longrightarrow> P (e q)) \<Longrightarrow> env_keeps P [e]"
  by (simp add: env_keeps_def)

lemma Reserve_empty:
  "write_length (queue h) = 0 \<Longrightarrow> Reserve h = (True, h\<lparr>queue := (queue h)\<lparr>write_length := 1\<rparr>\<rparr>)"
  by (simp add: Reserve_def ExchangeAdd_def kQueueCapacity_def)

lemma other_enqueues_parked:
  assumes "length (array q) = 64" "write_length q = 0" "head_index q = 0" "valid (array q ! 0) = 2"
  shows "valid (array (other_enqueues x q) ! 0) = 1"
    and "length (array (other_enqueues x q)) = 64"
    and "bytes (val (array (other_enqueues x q) ! 0)) = bytes (copied (array q ! 0) x)"
    and "write_length (other_enqueues x q) = 1"
proof -
  let ?p = "\<lparr>queue = q, tail_index = 0, futex_calls = []\<rparr>"
  let ?p1 = "?p\<lparr>queue := (queue ?p)\<lparr>write_length := 1\<rparr>\<rparr>"
  have r: "Reserve ?p = (True, ?p1)" using assms(2) by (intro Reserve_empty) simp
  let ?p2 = "?p1\<lparr>queue := (queue ?p1)\<lparr>head_index := (head_index (queue ?p1) + 1) AND 63,
              array := (array (queue ?p1))[0 := ticketed (array (queue ?p1) ! 0)]\<rparr>\<rparr>"
  have i: "unat (head_index (queue ?p1) AND 63) = 0" using assms(3) by simp
  have d: "DoEnqueue [] ?p1 x False = publish ?p2 0 x"
    unfolding DoEnqueue_nonblocking i using assms(1) by simp
  have v2: "valid (array (queue ?p2) ! 0) = 2" using assms(1,4) by (simp add: ticketed_def)
  have l2: "0 < length (array (queue ?p2))" using assms(1) by simp
  have pub: "publish ?p2 0 x =
      Inr (?p2\<lparr>queue := (queue ?p2)\<lparr>array := (array (queue ?p2))[0 :=
                (array (queue ?p2) ! 0)\<lparr>val := copied (array (queue ?p2) ! 0) x, valid := 1\<rparr>]\<rparr>,
              futex_calls := futex_calls ?p2 @ [FutexWake (ValidOf 0) 1]\<rparr>)"
    unfolding publish_eq[OF l2] v2 by simp
  have e: "other_enqueues x q = (queue ?p2)\<lparr>array := (array (queue ?p2))[0 :=
                (array (queue ?p2) ! 0)\<lparr>val := copied (array (queue ?p2) ! 0) x, valid := 1\<rparr>]\<rparr>"
    unfolding other_enqueues_def Enqueue_split r fst_conv snd_conv d pub by simp
  show "valid (array (other_enqueues x q) ! 0) = 1" unfolding e using assms(1) by simp
  show "length (array (other_enqueues x q)) = 64" unfolding e using assms(1) by simp
  show "bytes (val (array (other_enqueues x q) ! 0)) = bytes (copied (array q ! 0) x)"
    unfolding e using assms(1) by (simp add: copied_def ticketed_def)
  show "write_length (other_enqueues x q) = 1" unfolding e by simp
qed

lemma parked_reader_served:
  assumes "length (array mem) = 64"
  shows "\<exists>h'. DequeueNextBlocking [other_enqueues x] (fresh mem) item =
           Inr (h', item\<lparr>bytes := bytes (copied (array mem ! 0) x)\<rparr>) \<and>
         futex_calls h' = [FutexWait (ValidOf 0) 2]"
proof -
  let ?h0 = "fresh mem"
  let ?q2 = "set_valid (queue ?h0) 0 2"
  let ?q3 = "other_enqueues x ?q2"
  have t: "unat (tail_index ?h0) = 0" by (simp add: fresh_sel)
  have len: "length (array (queue ?h0)) = 64" using assms by (simp add: fresh_sel)
  have v0: "valid (array (queue ?h0) ! 0) = 0" using assms by (simp add: fresh_sel zeroed_def)
  have q2: "length (array ?q2) = 64" "write_length ?q2 = 0" "head_index ?q2 = 0" "valid (array ?q2 ! 0) = 2"
    using assms by (simp_all add: set_valid_def fresh_sel)
  note q3 = other_enqueues_parked[OF q2, of x]
  have loop: "read_wait_loop [other_enqueues x] 0 ?q2 (futex_calls ?h0) = Inr (?q3, [FutexWait (ValidOf 0) 2])"
    using q2(4) q3(1) by (simp add: fresh_sel)
  have z: "valid (array (set_valid ?q3 0 0) ! 0) = 0" using q3(2) by (simp add: set_valid_sel)
  have cl: "claim_slot [other_enqueues x] ?h0 0 =
      Inr (?h0\<lparr>queue := set_valid ?q3 0 0, futex_calls := [FutexWait (ValidOf 0) 2]\<rparr>)"
    unfolding claim_slot_split using v0 loop z by simp
  let ?h1 = "?h0\<lparr>queue := set_valid ?q3 0 0, futex_calls := [FutexWait (ValidOf 0) 2]\<rparr>"
  have b: "bytes (val (array (queue ?h1) ! 0)) = bytes (copied (array mem ! 0) x)"
    using q3(2,3) assms by (simp add: set_valid_def copied_def fresh_sel zeroed_def)
  have wl: "\<not> kQueueCapacity < sint (write_length (queue ?h1))"
    using q3(4) by (simp add: set_valid_def kQueueCapacity_def)
  have inb: "\<not> length (array (queue ?h0)) \<le> unat (tail_index ?h0)" using len t by simp
  have "DequeueNextBlocking [other_enqueues x] ?h0 item =
      Inr ((fst (DoDequeue ?h1 item 0))
              \<lparr>queue := (queue (fst (DoDequeue ?h1 item 0)))\<lparr>write_length := write_length (queue ?h1) - 1\<rparr>,
                futex_calls := futex_calls ?h1\<rparr>,
           snd (DoDequeue ?h1 item 0))"
    unfolding DequeueNextBlocking_split t using inb cl wl by (simp only: t if_False sum.case)
  then show ?thesis using b by (simp add: DoDequeue_sel)
qed

section \<open>The values of valid\<close>

text \<open>
  Claim C6. If every slot's \<^verbatim>\<open>valid\<close> is 0, 1 or 2, it still is after each of
  \<^verbatim>\<open>Enqueue\<close>, \<^verbatim>\<open>EnqueueBlocking\<close>, \<^verbatim>\<open>DequeueNext\<close> and \<^verbatim>\<open>DequeueNextBlocking\<close>
  has returned (the other threads' steps during a blocking call keeping that property
  and the number of slots). After \<^verbatim>\<open>DequeueNextBlocking\<close> has returned, the slot it
  read has \<^verbatim>\<open>valid = 0\<close>; and if no slot was 2 before the call and the other threads
  set no other slot to 2 meanwhile, no slot is 2 afterwards. A queue just made has every
  slot at 0.
\<close>

theorem valid_stays_in_range:
  assumes "valid_ok (queue h)" and "env_keeps valid_ok es"
    and "env_keeps (slots (length (array (queue h)))) es"
  shows "(\<forall>b h'. Enqueue h x = Inr (b, h') \<longrightarrow> valid_ok (queue h')) \<and>
         (\<forall>h'. EnqueueBlocking es h x = Inr h' \<longrightarrow> valid_ok (queue h')) \<and>
         (\<forall>b h' y. DequeueNext h item = Inr (b, h', y) \<longrightarrow> valid_ok (queue h')) \<and>
         (\<forall>h' y. DequeueNextBlocking es h item = Inr (h', y) \<longrightarrow>
            valid_ok (queue h') \<and> valid (array (queue h') ! unat (tail_index h)) = 0 \<and>
            (quiescent (queue h) \<and> env_keeps (others_quiescent (unat (tail_index h))) es \<longrightarrow>
               quiescent (queue h'))) \<and>
         (length (array mem) = nat kQueueCapacity \<longrightarrow>
            (\<exists>h0. MpscQueue_new (Some mem) = Inr h0 \<and> quiescent (queue h0) \<and> valid_ok (queue h0)))"
proof -
  have "\<exists>h0. MpscQueue_new (Some mem) = Inr h0 \<and> quiescent (queue h0) \<and> valid_ok (queue h0)"
    if "length (array mem) = nat kQueueCapacity"
    using that MpscQueue_new_fresh[of mem] fresh_quiescent[of mem] quiescent_valid_ok
    by (auto simp add: kQueueCapacity_def)
  then show ?thesis
    using Enqueue_valid_ok[OF assms(1)] EnqueueBlocking_valid_ok[OF assms(1,2)]
      DequeueNext_valid_ok[OF assms(1)] DequeueNextBlocking_valid_ok[OF assms]
      DequeueNextBlocking_quiescent[OF _ _ assms(3)]
    by blast
qed

theorem valid_stays_in_range_witness:
  "valid_ok (queue (fresh (pool_block 12))) \<and>
   env_keeps valid_ok [other_enqueues item12] \<and>
   env_keeps (slots (length (array (queue (fresh (pool_block 12)))))) [other_enqueues item12] \<and>
   quiescent (queue (fresh (pool_block 12))) \<and>
   env_keeps (others_quiescent (unat (tail_index (fresh (pool_block 12))))) [other_enqueues item12] \<and>
   (\<exists>h' y. DequeueNextBlocking [other_enqueues item12] (fresh (pool_block 12)) (out_object 12) = Inr (h', y) \<and>
      valid_ok (queue h') \<and>
      valid (array (queue h') ! unat (tail_index (fresh (pool_block 12)))) = 0 \<and>
      quiescent (queue h')) \<and>
   (\<exists>h'. Enqueue (fresh (pool_block 12)) item12 = Inr (True, h') \<and> valid_ok (queue h')) \<and>
   (\<exists>h' y. DequeueNext (fresh (pool_block 12)) (out_object 12) = Inr (False, h', y) \<and> valid_ok (queue h')) \<and>
   length (array (pool_block 12)) = nat kQueueCapacity \<and>
   (\<exists>h0. MpscQueue_new (Some (pool_block 12)) = Inr h0 \<and> quiescent (queue h0) \<and> valid_ok (queue h0))"
proof -
  let ?h = "fresh (pool_block 12)"
  let ?es = "[other_enqueues item12]"
  have len: "length (array (pool_block 12)) = 64" by (rule pool_block_length)
  have q: "quiescent (queue ?h)" by (rule fresh_quiescent)
  have a: "valid_ok (queue ?h)" using q by (rule quiescent_valid_ok)
  have b: "env_keeps valid_ok ?es" by (rule env_keeps_single) (rule other_enqueues_valid_ok)
  have c: "env_keeps (slots (length (array (queue ?h)))) ?es"
    by (rule env_keeps_single) (rule other_enqueues_slots)
  have d: "env_keeps (others_quiescent (unat (tail_index ?h))) ?es"
    by (rule env_keeps_single) (rule other_enqueues_others_quiescent)
  note main = valid_stays_in_range[OF a b c, of item12 "out_object 12" "pool_block 12"]
  from parked_reader_served[OF len, of item12 "out_object 12"] obtain h1 y1 where
    1: "DequeueNextBlocking ?es ?h (out_object 12) = Inr (h1, y1)" by blast
  from Enqueue_step[OF fresh_inv[OF len], of item12] obtain h2 where
    2: "Enqueue ?h item12 = Inr (True, h2)" by auto
  have 3: "DequeueNext ?h (out_object 12) = Inr (False, ?h, out_object 12)"
    using Dequeue_none[OF fresh_inv[OF len]] .
  from main 1 q d have r1: "valid_ok (queue h1) \<and> valid (array (queue h1) ! unat (tail_index ?h)) = 0 \<and> quiescent (queue h1)"
    by blast
  from main 2 have r2: "valid_ok (queue h2)" by blast
  from main 3 have r3: "valid_ok (queue ?h)" by blast
  have e: "length (array (pool_block 12)) = nat kQueueCapacity"
    using len by (simp add: kQueueCapacity_def)
  from main e have r4: "\<exists>h0. MpscQueue_new (Some (pool_block 12)) = Inr h0 \<and> quiescent (queue h0) \<and> valid_ok (queue h0)"
    by blast
  from a b c q d 1 r1 2 r2 3 r3 e r4 show ?thesis by blast
qed

end
